theory Spec2Isabelle
  imports Main
begin

unbundle bit_operations_syntax

section \<open>Data model\<close>

text \<open>
  The headers \<^verbatim>\<open>bamfile.hpp\<close>, \<^verbatim>\<open>args.hpp\<close> and \<^verbatim>\<open>merge.hpp\<close>, which declare
  \<^verbatim>\<open>pos_t\<close>, \<^verbatim>\<open>aligned_t\<close>, \<^verbatim>\<open>args_t\<close> and \<^verbatim>\<open>res_t\<close>, are not among the sources. The four
  types below have the members that \<^verbatim>\<open>merge.cpp\<close> reads and writes, under the names
  it uses, with the types the specification gives them. Integers are
  mathematical integers: signed overflow is undefined in C++, so the model
  describes the runs without overflow.
\<close>

text \<open>
  Modelled from the spec: the declaration of \<^verbatim>\<open>pos_t\<close>, the position record with its
  column, insertion index, coverage and nucleotide code. The code is the integer
  value of the stored mask; \<^verbatim>\<open>&\<close> is bitwise conjunction on it.
\<close>

record pos_t =
  col :: int
  ins :: int
  cov :: int
  nuc :: int

text \<open>
  Modelled from the spec: the declaration of \<^verbatim>\<open>aligned_t\<close>, the cluster with its
  sequence of position records, left and right bound and contribution count.
  The cluster owns an array \<^verbatim>\<open>data\<close> of \<^verbatim>\<open>len\<close> records. The array and its length are
  one list here, so \<^verbatim>\<open>xs.len\<close> is the length of \<open>data xs\<close>, and \<^verbatim>\<open>data == NULL\<close> with
  \<^verbatim>\<open>len == 0\<close> is the empty list.
\<close>

record aligned_t =
  data :: "pos_t list"
  lpos :: int
  rpos :: int
  ncontrib :: int

definition len :: "aligned_t \<Rightarrow> nat" where
  "len a = length (data a)"

text \<open>
  Modelled from the spec: the declaration of \<^verbatim>\<open>args_t\<close>, the configuration; only the
  four members that \<^verbatim>\<open>merge.cpp\<close> reads.
\<close>

record args_t =
  min_overlap :: int
  min_reads :: int
  tol_gaps :: bool
  tol_ambigs :: bool

text \<open>
  Modelled from the spec: the declaration of \<^verbatim>\<open>res_t\<close>, the three outcomes of a merge
  (success, no match, fatal error) under the names \<^verbatim>\<open>merge.cpp\<close> uses.
\<close>

datatype res_t = SUCCESS | FAILURE | ERROR

text \<open>The \<^verbatim>\<open>enum cmp_t\<close> of \<^verbatim>\<open>merge.cpp\<close>.\<close>

datatype cmp_t = LT | GT | EQ

section \<open>util.cpp: nucleotide codes\<close>

definition nuc2bits :: "char \<Rightarrow> int" where
  "nuc2bits c =
     (if c = CHR ''A'' then 1
      else if c = CHR ''C'' then 2
      else if c = CHR ''G'' then 4
      else if c = CHR ''T'' then 8
      else if c = CHR ''M'' then 1 OR 2
      else if c = CHR ''R'' then 1 OR 4
      else if c = CHR ''W'' then 1 OR 8
      else if c = CHR ''S'' then 2 OR 4
      else if c = CHR ''Y'' then 2 OR 8
      else if c = CHR ''K'' then 4 OR 8
      else if c = CHR ''V'' then 1 OR 2 OR 4
      else if c = CHR ''H'' then 1 OR 2 OR 8
      else if c = CHR ''D'' then 1 OR 4 OR 8
      else if c = CHR ''B'' then 2 OR 4 OR 8
      else 1 OR 2 OR 4 OR 8)"

definition bits2nuc :: "int \<Rightarrow> char" where
  "bits2nuc b =
     (if b = 1 then CHR ''A''
      else if b = 2 then CHR ''C''
      else if b = 4 then CHR ''G''
      else if b = 8 then CHR ''T''
      else if b = (1 OR 2) then CHR ''M''
      else if b = (1 OR 4) then CHR ''R''
      else if b = (1 OR 8) then CHR ''W''
      else if b = (2 OR 4) then CHR ''S''
      else if b = (2 OR 8) then CHR ''Y''
      else if b = (4 OR 8) then CHR ''K''
      else if b = (1 OR 2 OR 4) then CHR ''V''
      else if b = (1 OR 2 OR 8) then CHR ''H''
      else if b = (1 OR 4 OR 8) then CHR ''D''
      else if b = (2 OR 4 OR 8) then CHR ''B''
      else CHR ''N'')"

text \<open>The canonical alphabet: the four bases, the ten multi-base letters and \<open>N\<close>.\<close>

definition iupac :: "char list" where
  "iupac = ''ACGTMRWSYKVHDBN''"

section \<open>merge.cpp: the position comparator\<close>

definition pos_cmp :: "pos_t \<Rightarrow> pos_t \<Rightarrow> cmp_t" where
  "pos_cmp x y =
     (if col x > col y then GT
      else if col y > col x then LT
      else if ins x > ins y then GT
      else if ins y < ins x then LT
      else EQ)"


section \<open>merge.cpp: merging two clusters\<close>

text \<open>The macros \<^verbatim>\<open>MAX\<close> and \<^verbatim>\<open>MIN\<close> (suffixed: the plain names are binders in HOL).\<close>

definition MAX_m :: "int \<Rightarrow> int \<Rightarrow> int" where
  "MAX_m a b = (if a > b then a else b)"

definition MIN_m :: "int \<Rightarrow> int \<Rightarrow> int" where
  "MIN_m a b = (if a < b then a else b)"

text \<open>
  The messages handed to \<^verbatim>\<open>ABORT\<close>. Without \<^verbatim>\<open>DEBUG\<close> the macro is
  \<^verbatim>\<open>{ return FAILURE; }\<close> for every message.
\<close>

datatype abort_msg =
    Insufficient_length
  | No_opportunity
  | No_gaps_in_xs
  | No_gaps_in_ys
  | Mismatch
  | Insufficient_overlap
  | Memory_allocation_error

definition ABORT :: "abort_msg \<Rightarrow> res_t" where
  "ABORT msg = FAILURE"

text \<open>Lines 99-102: skip the overhang of \<open>xs\<close>; the loop state is \<open>(xidx, cmp)\<close>.\<close>

function skip_xs :: "aligned_t \<Rightarrow> aligned_t \<Rightarrow> nat \<Rightarrow> nat \<Rightarrow> cmp_t \<Rightarrow> nat \<times> cmp_t" where
  "skip_xs xs ys xidx yidx cmp =
     (if cmp = LT \<and> xidx + 1 < len xs
      then skip_xs xs ys (xidx + 1) yidx (pos_cmp (data xs ! (xidx + 1)) (data ys ! yidx))
      else (xidx, cmp))"
  by pat_completeness auto
termination
  by (relation "measure (\<lambda>(xs, ys, xidx, yidx, cmp). len xs - xidx)") auto

declare skip_xs.simps [simp del]

text \<open>Lines 110-113: skip the overhang of \<open>ys\<close>; the loop state is \<open>(yidx, cmp)\<close>.\<close>

function skip_ys :: "aligned_t \<Rightarrow> aligned_t \<Rightarrow> nat \<Rightarrow> nat \<Rightarrow> cmp_t \<Rightarrow> nat \<times> cmp_t" where
  "skip_ys xs ys xidx yidx cmp =
     (if cmp = GT \<and> yidx + 1 < len ys
      then skip_ys xs ys xidx (yidx + 1) (pos_cmp (data xs ! xidx) (data ys ! (yidx + 1)))
      else (yidx, cmp))"
  by pat_completeness auto
termination
  by (relation "measure (\<lambda>(xs, ys, xidx, yidx, cmp). len ys - yidx)") auto

declare skip_ys.simps [simp del]

text \<open>
  Lines 92-119: the first comparison and the overhang. The result is the abort
  message, or \<open>(xidx, yidx, mlen)\<close> as the overlap walk finds them.
\<close>

definition overhang :: "aligned_t \<Rightarrow> aligned_t \<Rightarrow> args_t \<Rightarrow> abort_msg + (nat \<times> nat \<times> nat)" where
  "overhang xs ys args =
     (let cmp = pos_cmp (data xs ! 0) (data ys ! 0) in
      if cmp = LT then
        (case skip_xs xs ys 0 0 cmp of (xidx, cmp') \<Rightarrow>
           if cmp' = GT \<and> \<not> tol_gaps args then Inl No_gaps_in_ys
           else Inr (xidx, 0, 0 + xidx))
      else if cmp = GT then
        (case skip_ys xs ys 0 0 cmp of (yidx, cmp') \<Rightarrow>
           if cmp' = GT \<and> \<not> tol_gaps args then Inl No_gaps_in_xs
           else Inr (0, yidx, 0 + yidx))
      else Inr (0, 0, 0))"

text \<open>
  Lines 122-144: the overlap walk. The loop state is \<open>(xidx, yidx, mlen, overlap)\<close>;
  the result is the abort message or the state at loop exit.
\<close>

function overlap_walk ::
  "aligned_t \<Rightarrow> aligned_t \<Rightarrow> args_t \<Rightarrow> nat \<Rightarrow> nat \<Rightarrow> nat \<Rightarrow> int
     \<Rightarrow> abort_msg + (nat \<times> nat \<times> nat \<times> int)" where
  "overlap_walk xs ys args xidx yidx mlen overlap =
     (if xidx < len xs \<and> yidx < len ys then
        (let x = data xs ! xidx; y = data ys ! yidx; cmp = pos_cmp x y in
         if cmp = LT then
           (if \<not> tol_gaps args then Inl No_gaps_in_xs
            else overlap_walk xs ys args (xidx + 1) yidx (mlen + 1) overlap)
         else if cmp = GT then
           (if \<not> tol_gaps args then Inl No_gaps_in_ys
            else overlap_walk xs ys args xidx (yidx + 1) (mlen + 1) overlap)
         else if nuc x = nuc y \<or> (tol_ambigs args \<and> (nuc x AND nuc y) \<noteq> 0) then
           overlap_walk xs ys args (xidx + 1) (yidx + 1) (mlen + 1) (overlap + 1)
         else Inl Mismatch)
      else Inr (xidx, yidx, mlen, overlap))"
  by pat_completeness auto
termination
  by (relation "measure (\<lambda>(xs, ys, args, xidx, yidx, mlen, overlap).
        (len xs - xidx) + (len ys - yidx))") auto

declare overlap_walk.simps [simp del]

text \<open>
  Lines 84-153: everything before the allocation. The result is the abort message,
  or the merged length \<open>mlen\<close> and the overlap counter.
\<close>

definition merge_two_scan :: "aligned_t \<Rightarrow> aligned_t \<Rightarrow> args_t \<Rightarrow> abort_msg + (nat \<times> int)" where
  "merge_two_scan xs ys args =
     (if len xs = 0 \<or> len ys = 0 then Inl Insufficient_length
      else if rpos xs < lpos ys + min_overlap args \<and> rpos ys < lpos xs + min_overlap args
      then Inl No_opportunity
      else
        (case overhang xs ys args of
           Inl msg \<Rightarrow> Inl msg
         | Inr (xidx0, yidx0, mlen0) \<Rightarrow>
             (case overlap_walk xs ys args xidx0 yidx0 mlen0 0 of
                Inl msg \<Rightarrow> Inl msg
              | Inr (xidx, yidx, mlen, overlap) \<Rightarrow>
                  if overlap < min_overlap args then Inl Insufficient_overlap
                  else if xidx < len xs then Inr (mlen + (len xs - xidx), overlap)
                  else if yidx < len ys then Inr (mlen + (len ys - yidx), overlap)
                  else Inr (mlen, overlap))))"

text \<open>
  A write \<^verbatim>\<open>merged.data[ midx ] = v\<close> into the allocated array. A write past its end
  is undefined behaviour in C++; it is the value \<open>None\<close> here.
\<close>

definition store :: "pos_t list \<Rightarrow> nat \<Rightarrow> pos_t \<Rightarrow> pos_t list option" where
  "store buf midx v = (if midx < length buf then Some (buf[midx := v]) else None)"

text \<open>Lines 164-178: the construction walk. The loop state is \<open>(xidx, yidx, buf, midx)\<close>.\<close>

function fill_walk ::
  "aligned_t \<Rightarrow> aligned_t \<Rightarrow> nat \<Rightarrow> nat \<Rightarrow> pos_t list \<Rightarrow> nat
     \<Rightarrow> (nat \<times> nat \<times> pos_t list \<times> nat) option" where
  "fill_walk xs ys xidx yidx buf midx =
     (if xidx < len xs \<and> yidx < len ys then
        (let x = data xs ! xidx; y = data ys ! yidx; cmp = pos_cmp x y in
         if cmp = LT then
           (case store buf midx x of None \<Rightarrow> None
            | Some buf' \<Rightarrow> fill_walk xs ys (xidx + 1) yidx buf' (midx + 1))
         else if cmp = GT then
           (case store buf midx y of None \<Rightarrow> None
            | Some buf' \<Rightarrow> fill_walk xs ys xidx (yidx + 1) buf' (midx + 1))
         else
           (case store buf midx (x\<lparr>cov := cov x + cov y, nuc := MIN_m (nuc x) (nuc y)\<rparr>) of
              None \<Rightarrow> None
            | Some buf' \<Rightarrow> fill_walk xs ys (xidx + 1) (yidx + 1) buf' (midx + 1)))
      else Some (xidx, yidx, buf, midx))"
  by pat_completeness auto
termination
  by (relation "measure (\<lambda>(xs, ys, xidx, yidx, buf, midx).
        (len xs - xidx) + (len ys - yidx))") auto

declare fill_walk.simps [simp del]

text \<open>Lines 181-182 and 184-185: copy the remainder of one input.\<close>

function copy_rest :: "aligned_t \<Rightarrow> nat \<Rightarrow> pos_t list \<Rightarrow> nat \<Rightarrow> (pos_t list \<times> nat) option" where
  "copy_rest zs idx buf midx =
     (if idx < len zs then
        (case store buf midx (data zs ! idx) of None \<Rightarrow> None
         | Some buf' \<Rightarrow> copy_rest zs (idx + 1) buf' (midx + 1))
      else Some (buf, midx))"
  by pat_completeness auto
termination
  by (relation "measure (\<lambda>(zs, idx, buf, midx). len zs - idx)") auto

declare copy_rest.simps [simp del]

text \<open>Lines 164-185: the whole fill, from \<open>midx = 0\<close>; the result is the array and \<open>midx\<close>.\<close>

definition merge_two_fill :: "aligned_t \<Rightarrow> aligned_t \<Rightarrow> pos_t list \<Rightarrow> (pos_t list \<times> nat) option" where
  "merge_two_fill xs ys buf =
     (case fill_walk xs ys 0 0 buf 0 of
        None \<Rightarrow> None
      | Some (xidx, yidx, buf', midx) \<Rightarrow>
          if xidx < len xs then copy_rest xs xidx buf' midx
          else if yidx < len ys then copy_rest ys yidx buf' midx
          else Some (buf', midx))"

text \<open>
  \<^verbatim>\<open>malloc\<close>: \<open>None\<close> is the null pointer; \<open>Some f\<close> is a fresh array whose cell \<open>i\<close>
  holds the indeterminate record \<open>f i\<close>.
\<close>

type_synonym malloc_t = "(nat \<Rightarrow> pos_t) option"

text \<open>The two messages of the check after the fill (lines 188-191).\<close>

datatype diag_t = Failed_to_fill | Overfilled

text \<open>
  \<^verbatim>\<open>merge_two\<close>, built without \<^verbatim>\<open>DEBUG\<close>. The argument \<open>mem\<close> is what \<^verbatim>\<open>malloc\<close> returns
  if the call is reached, \<open>merged\<close> is the out-parameter on entry. The result is
  \<open>None\<close> after a write past the end of the array, else the returned \<^verbatim>\<open>res_t\<close>, the
  out-parameter on exit and the lines written to \<^verbatim>\<open>cerr\<close>. When \<^verbatim>\<open>malloc\<close> fails the
  C++ out-parameter has \<^verbatim>\<open>len = mlen\<close> with a null array; the caller drops it.
\<close>

definition merge_two ::
  "aligned_t \<Rightarrow> aligned_t \<Rightarrow> args_t \<Rightarrow> malloc_t \<Rightarrow> aligned_t
     \<Rightarrow> (res_t \<times> aligned_t \<times> diag_t list) option" where
  "merge_two xs ys args mem merged =
     (case merge_two_scan xs ys args of
        Inl msg \<Rightarrow> Some (ABORT msg, merged, [])
      | Inr (mlen, overlap) \<Rightarrow>
          (let merged' = merged\<lparr>
                 data := (case mem of None \<Rightarrow> [] | Some f \<Rightarrow> map f [0..<mlen]),
                 lpos := MIN_m (lpos xs) (lpos ys),
                 rpos := MAX_m (rpos xs) (rpos ys),
                 ncontrib := ncontrib xs + ncontrib ys\<rparr>
           in if mem = None then Some (ABORT Memory_allocation_error, merged', [])
              else
                (case merge_two_fill xs ys (data merged') of
                   None \<Rightarrow> None
                 | Some (buf, midx) \<Rightarrow>
                     Some (SUCCESS, merged'\<lparr>data := buf\<rparr>,
                           if midx < mlen then [Failed_to_fill]
                           else if midx > mlen then [Overfilled]
                           else []))))"


section \<open>merge.cpp: the aggregation loop\<close>

definition ncontrib_cmp :: "aligned_t \<Rightarrow> aligned_t \<Rightarrow> bool" where
  "ncontrib_cmp x y = (ncontrib x > ncontrib y)"

definition aligned_destroy :: "aligned_t \<Rightarrow> aligned_t" where
  "aligned_destroy read = read\<lparr>data := []\<rparr>"

text \<open>\<^verbatim>\<open>clusters.erase( b )\<close> for the iterator at index \<open>b\<close>.\<close>

definition erase :: "'a list \<Rightarrow> nat \<Rightarrow> 'a list" where
  "erase cs b = take b cs @ drop (Suc b) cs"

text \<open>The local \<^verbatim>\<open>aligned_t merged = { .data = NULL }\<close>: the other members are zero.\<close>

definition merged_init :: aligned_t where
  "merged_init = \<lparr>data = [], lpos = 0, rpos = 0, ncontrib = 0\<rparr>"

text \<open>
  The state of one pass of the \<^verbatim>\<open>for\<close> loop over \<open>a\<close> (lines 213-233): the vector, the
  iterators \<open>a\<close> and \<open>b\<close> as indices, \<open>nclusters\<close>, \<open>repeat\<close>, the progress lines
  written to \<^verbatim>\<open>stderr\<close> so far (each is \<open>(nread, clusters.size())\<close>, one per
  successful merge), and the number \<open>k\<close> of calls of \<^verbatim>\<open>merge_two\<close> made so far.
  The heap is an oracle: \<open>heap k\<close> is what \<^verbatim>\<open>malloc\<close> returns inside call number \<open>k\<close>.
\<close>

datatype pass_t =
    Pass_end "aligned_t list" int bool "(int \<times> nat) list" nat
  | Pass_error "aligned_t list" "(int \<times> nat) list"
  | Pass_undefined

function merge_pass ::
  "int \<Rightarrow> args_t \<Rightarrow> (nat \<Rightarrow> malloc_t) \<Rightarrow> aligned_t list \<Rightarrow> nat \<Rightarrow> nat \<Rightarrow> int \<Rightarrow> bool
     \<Rightarrow> (int \<times> nat) list \<Rightarrow> nat \<Rightarrow> pass_t" where
  "merge_pass nread args heap clusters a b nclusters repeat out k =
     (if a < length clusters then
        (if b < length clusters then
           (case merge_two (clusters ! a) (clusters ! b) args (heap k) merged_init of
              None \<Rightarrow> Pass_undefined
            | Some (res, merged, diag) \<Rightarrow>
                if res = SUCCESS then
                  (let clusters1 = clusters[a := aligned_destroy (clusters ! a)];
                       clusters2 = clusters1[b := aligned_destroy (clusters1 ! b)];
                       clusters3 = clusters2[a := merged];
                       clusters4 = erase clusters3 b
                   in merge_pass nread args heap clusters4 a (a + 1) nclusters True
                        (out @ [(nread, length clusters4)]) (k + 1))
                else if res = ERROR then Pass_error clusters out
                else merge_pass nread args heap clusters a (b + 1) nclusters repeat out (k + 1))
         else merge_pass nread args heap clusters (a + 1) (a + 1 + 1)
                (if ncontrib (clusters ! a) \<ge> min_reads args then nclusters + 1 else nclusters)
                repeat out k)
      else Pass_end clusters nclusters repeat out k)"
  by pat_completeness auto
termination
  by (relation "measures [
        \<lambda>(nread, args, heap, clusters, a, b, nclusters, repeat, out, k). length clusters,
        \<lambda>(nread, args, heap, clusters, a, b, nclusters, repeat, out, k). length clusters - a,
        \<lambda>(nread, args, heap, clusters, a, b, nclusters, repeat, out, k). length clusters - b]")
     (auto simp: erase_def)

declare merge_pass.simps [simp del]

text \<open>
  The result of \<^verbatim>\<open>merge_clusters\<close>: the returned \<^verbatim>\<open>int\<close>, the vector on exit and the
  progress lines, or undefined behaviour.
\<close>

datatype run_t =
    Returned int "aligned_t list" "(int \<times> nat) list"
  | Undefined

text \<open>
  The \<^verbatim>\<open>do ... while ( repeat )\<close> loop (lines 208-234). \<^verbatim>\<open>std::sort\<close> leaves the order
  of clusters with equal \<^verbatim>\<open>ncontrib\<close> open, so the sort is the parameter \<open>srt\<close>.
  \<open>None\<close> is a loop that never exits.
\<close>

partial_function (option) merge_clusters_loop ::
  "(aligned_t list \<Rightarrow> aligned_t list) \<Rightarrow> int \<Rightarrow> args_t \<Rightarrow> (nat \<Rightarrow> malloc_t)
     \<Rightarrow> aligned_t list \<Rightarrow> (int \<times> nat) list \<Rightarrow> nat \<Rightarrow> run_t option" where
  "merge_clusters_loop srt nread args heap clusters out k =
     (case merge_pass nread args heap (srt clusters) 0 (0 + 1) 0 False out k of
        Pass_undefined \<Rightarrow> Some Undefined
      | Pass_error clusters' out' \<Rightarrow> Some (Returned (- 1) clusters' out')
      | Pass_end clusters' nclusters repeat out' k' \<Rightarrow>
          if repeat then merge_clusters_loop srt nread args heap clusters' out' k'
          else Some (Returned nclusters clusters' out'))"

declare merge_clusters_loop.simps [code]

definition merge_clusters ::
  "(aligned_t list \<Rightarrow> aligned_t list) \<Rightarrow> int \<Rightarrow> args_t \<Rightarrow> (nat \<Rightarrow> malloc_t)
     \<Rightarrow> aligned_t list \<Rightarrow> run_t option" where
  "merge_clusters srt nread args heap clusters =
     merge_clusters_loop srt nread args heap clusters [] 0"

text \<open>
  One admissible \<^verbatim>\<open>std::sort\<close> with \<^verbatim>\<open>ncontrib_cmp\<close>: insertion sort, descending by
  \<open>ncontrib\<close>, keeping the order of equal clusters.
\<close>

definition sort_desc :: "aligned_t list \<Rightarrow> aligned_t list" where
  "sort_desc clusters = sort_key (\<lambda>c. - ncontrib c) clusters"


section \<open>Notions used to state the properties\<close>

text \<open>The test of lines 135-136 on two records that compare equal.\<close>

definition compatible :: "args_t \<Rightarrow> pos_t \<Rightarrow> pos_t \<Rightarrow> bool" where
  "compatible args x y \<longleftrightarrow> nuc x = nuc y \<or> (tol_ambigs args \<and> (nuc x AND nuc y) \<noteq> 0)"

text \<open>
  The states \<open>(xidx, yidx, mlen, overlap)\<close> in which the overlap walk of \<^verbatim>\<open>merge_two\<close>
  tests its loop condition: the state the overhang leaves, and the state after
  each iteration that does not abort.
\<close>

inductive walk_visits :: "aligned_t \<Rightarrow> aligned_t \<Rightarrow> args_t \<Rightarrow> nat \<times> nat \<times> nat \<times> int \<Rightarrow> bool"
  for xs ys args where
    start: "overhang xs ys args = Inr (xidx0, yidx0, mlen0) \<Longrightarrow>
            walk_visits xs ys args (xidx0, yidx0, mlen0, 0)"
  | lt: "walk_visits xs ys args (xidx, yidx, mlen, overlap) \<Longrightarrow>
         xidx < len xs \<Longrightarrow> yidx < len ys \<Longrightarrow>
         pos_cmp (data xs ! xidx) (data ys ! yidx) = LT \<Longrightarrow> tol_gaps args \<Longrightarrow>
         walk_visits xs ys args (xidx + 1, yidx, mlen + 1, overlap)"
  | gt: "walk_visits xs ys args (xidx, yidx, mlen, overlap) \<Longrightarrow>
         xidx < len xs \<Longrightarrow> yidx < len ys \<Longrightarrow>
         pos_cmp (data xs ! xidx) (data ys ! yidx) = GT \<Longrightarrow> tol_gaps args \<Longrightarrow>
         walk_visits xs ys args (xidx, yidx + 1, mlen + 1, overlap)"
  | eq: "walk_visits xs ys args (xidx, yidx, mlen, overlap) \<Longrightarrow>
         xidx < len xs \<Longrightarrow> yidx < len ys \<Longrightarrow>
         pos_cmp (data xs ! xidx) (data ys ! yidx) = EQ \<Longrightarrow>
         compatible args (data xs ! xidx) (data ys ! yidx) \<Longrightarrow>
         walk_visits xs ys args (xidx + 1, yidx + 1, mlen + 1, overlap + 1)"

text \<open>
  The specification's "maximal achievable overlap" of two clusters: the number of
  positions \<open>(column, insertion-index)\<close> of \<open>xs\<close> that \<open>ys\<close> has too, with a compatible
  code. No walk over the two clusters can count more shared positions.
\<close>

definition spec_max_overlap :: "aligned_t \<Rightarrow> aligned_t \<Rightarrow> args_t \<Rightarrow> int" where
  "spec_max_overlap xs ys args =
     int (length (filter (\<lambda>x. \<exists>y \<in> set (data ys). col y = col x \<and> ins y = ins x \<and> compatible args x y)
            (data xs)))"

section \<open>Example inputs\<close>

text \<open>Two reads over columns 0..2 and 1..3 that agree on columns 1 and 2.\<close>

definition ex_a :: aligned_t where
  "ex_a = \<lparr>data = [\<lparr>col = 0, ins = 0, cov = 1, nuc = 1\<rparr>,
                   \<lparr>col = 1, ins = 0, cov = 1, nuc = 2\<rparr>,
                   \<lparr>col = 2, ins = 0, cov = 1, nuc = 4\<rparr>],
           lpos = 0, rpos = 2, ncontrib = 1\<rparr>"

definition ex_b :: aligned_t where
  "ex_b = \<lparr>data = [\<lparr>col = 1, ins = 0, cov = 1, nuc = 2\<rparr>,
                   \<lparr>col = 2, ins = 0, cov = 1, nuc = 4\<rparr>,
                   \<lparr>col = 3, ins = 0, cov = 1, nuc = 8\<rparr>],
           lpos = 1, rpos = 3, ncontrib = 1\<rparr>"

text \<open>A read over columns 1..2 that disagrees with \<open>ex_a\<close> on column 1.\<close>

definition ex_c :: aligned_t where
  "ex_c = \<lparr>data = [\<lparr>col = 1, ins = 0, cov = 1, nuc = 8\<rparr>,
                   \<lparr>col = 2, ins = 0, cov = 1, nuc = 4\<rparr>],
           lpos = 1, rpos = 2, ncontrib = 1\<rparr>"

definition ex_args :: args_t where
  "ex_args = \<lparr>min_overlap = 2, min_reads = 2, tol_gaps = False, tol_ambigs = False\<rparr>"

text \<open>A heap on which every \<^verbatim>\<open>malloc\<close> succeeds, and one on which every \<^verbatim>\<open>malloc\<close> fails.\<close>

definition ex_heap :: "nat \<Rightarrow> malloc_t" where
  "ex_heap k = Some (\<lambda>i. \<lparr>col = 0, ins = 0, cov = 0, nuc = 0\<rparr>)"

definition ex_heap_full :: "nat \<Rightarrow> malloc_t" where
  "ex_heap_full k = None"

text \<open>
  Two reads with insertions after column 0: \<open>ex_x\<close> holds the base of column 0, its
  first insertion and the bases of columns 1 and 2; \<open>ex_y\<close> holds the first and the
  second insertion after column 0. Both are strictly ascending by \<open>(col, ins)\<close>, and
  \<open>(0, 1)\<close> is the only position they share.
\<close>

definition ex_x :: aligned_t where
  "ex_x = \<lparr>data = [\<lparr>col = 0, ins = 0, cov = 1, nuc = 1\<rparr>,
                   \<lparr>col = 0, ins = 1, cov = 10, nuc = 1\<rparr>,
                   \<lparr>col = 1, ins = 0, cov = 1, nuc = 2\<rparr>,
                   \<lparr>col = 2, ins = 0, cov = 1, nuc = 4\<rparr>],
           lpos = 0, rpos = 2, ncontrib = 1\<rparr>"

definition ex_y :: aligned_t where
  "ex_y = \<lparr>data = [\<lparr>col = 0, ins = 1, cov = 100, nuc = 1\<rparr>,
                   \<lparr>col = 0, ins = 2, cov = 1000, nuc = 1\<rparr>],
           lpos = 0, rpos = 0, ncontrib = 1\<rparr>"


section \<open>The construction walk follows the first pass\<close>

lemma store_in_range: "midx < length buf \<Longrightarrow> store buf midx v = Some (buf[midx := v])"
  by (simp add: store_def)

lemma copy_rest_fits:
  "midx + (len zs - idx) \<le> length buf \<Longrightarrow>
   \<exists>buf'. copy_rest zs idx buf midx = Some (buf', midx + (len zs - idx)) \<and> length buf' = length buf"
proof (induction zs idx buf midx rule: copy_rest.induct)
  case (1 zs idx buf midx)
  show ?case
  proof (cases "idx < len zs")
    case False
    then show ?thesis by (subst copy_rest.simps) simp
  next
    case True
    with "1.prems" have fits: "midx < length buf" by simp
    let ?buf1 = "buf[midx := data zs ! idx]"
    have st: "store buf midx (data zs ! idx) = Some ?buf1"
      using fits by (rule store_in_range)
    from True "1.prems" have "midx + 1 + (len zs - (idx + 1)) \<le> length ?buf1" by simp
    from "1.IH"[OF True st this] obtain buf' where
      "copy_rest zs (idx + 1) ?buf1 (midx + 1) = Some (buf', midx + 1 + (len zs - (idx + 1)))"
      "length buf' = length ?buf1" by blast
    moreover from True have "midx + 1 + (len zs - (idx + 1)) = midx + (len zs - idx)" by simp
    ultimately show ?thesis
      using True st by (subst copy_rest.simps) simp
  qed
qed

lemma fill_walk_exit:
  "\<not> (xidx < len xs \<and> yidx < len ys) \<Longrightarrow>
   fill_walk xs ys xidx yidx buf midx = Some (xidx, yidx, buf, midx)"
  by (subst fill_walk.simps) auto

lemma overlap_walk_exit:
  "\<not> (xidx < len xs \<and> yidx < len ys) \<Longrightarrow>
   overlap_walk xs ys args xidx yidx mlen overlap = Inr (xidx, yidx, mlen, overlap)"
  by (subst overlap_walk.simps) auto

lemma fill_follows_walk:
  "overlap_walk xs ys args xidx yidx mlen overlap = Inr (xidx', yidx', mlen', overlap') \<Longrightarrow>
   \<exists>d. mlen' = mlen + d \<and>
     (\<forall>buf midx. midx + d \<le> length buf \<longrightarrow>
        (\<exists>buf'. fill_walk xs ys xidx yidx buf midx = Some (xidx', yidx', buf', midx + d)
               \<and> length buf' = length buf))"
proof (induction xs ys args xidx yidx mlen overlap rule: overlap_walk.induct)
  case (1 xs ys args xidx yidx mlen overlap)
  let ?x = "data xs ! xidx" and ?y = "data ys ! yidx"
  let ?cmp = "pos_cmp ?x ?y"
  note res = "1.prems"
  show ?case
  proof (cases "xidx < len xs \<and> yidx < len ys")
    case False
    with res have "xidx' = xidx" "yidx' = yidx" "mlen' = mlen"
      by (simp_all add: overlap_walk_exit)
    with False show ?thesis
      by (intro exI[of _ 0]) (simp add: fill_walk_exit)
  next
    case inside: True
    consider (lt) "?cmp = LT" | (gt) "?cmp = GT" | (eq) "?cmp = EQ"
      by (cases ?cmp) auto
    then show ?thesis
    proof cases
      case lt
      with inside res have tol: "tol_gaps args"
        and rec: "overlap_walk xs ys args (xidx + 1) yidx (mlen + 1) overlap
                    = Inr (xidx', yidx', mlen', overlap')"
        by (auto simp: overlap_walk.simps[of xs ys args xidx yidx] Let_def split: if_splits)
      from "1.IH"(1)[OF inside refl refl refl lt _ rec] tol
      obtain d where d: "mlen' = mlen + 1 + d"
        and fill: "\<And>buf midx. midx + d \<le> length buf \<Longrightarrow>
           \<exists>buf'. fill_walk xs ys (xidx + 1) yidx buf midx = Some (xidx', yidx', buf', midx + d)
                  \<and> length buf' = length buf"
        by auto
      show ?thesis
      proof (intro exI[of _ "d + 1"] conjI allI impI)
        show "mlen' = mlen + (d + 1)" using d by simp
      next
        fix buf :: "pos_t list" and midx
        assume fits: "midx + (d + 1) \<le> length buf"
        then have st: "store buf midx ?x = Some (buf[midx := ?x])"
          by (intro store_in_range) simp
        from fits have "midx + 1 + d \<le> length (buf[midx := ?x])" by simp
        from fill[OF this] obtain buf' where
          "fill_walk xs ys (xidx + 1) yidx (buf[midx := ?x]) (midx + 1)
             = Some (xidx', yidx', buf', midx + 1 + d)"
          "length buf' = length buf" by auto
        then show "\<exists>buf'. fill_walk xs ys xidx yidx buf midx = Some (xidx', yidx', buf', midx + (d + 1))
                  \<and> length buf' = length buf"
          using inside lt st by (subst fill_walk.simps) (simp add: Let_def add.assoc)
      qed
    next
      case gt
      with inside res have tol: "tol_gaps args"
        and rec: "overlap_walk xs ys args xidx (yidx + 1) (mlen + 1) overlap
                    = Inr (xidx', yidx', mlen', overlap')"
        by (auto simp: overlap_walk.simps[of xs ys args xidx yidx] Let_def split: if_splits)
      have nlt: "?cmp \<noteq> LT" using gt by simp
      from "1.IH"(2)[OF inside refl refl refl nlt gt _ rec] tol
      obtain d where d: "mlen' = mlen + 1 + d"
        and fill: "\<And>buf midx. midx + d \<le> length buf \<Longrightarrow>
           \<exists>buf'. fill_walk xs ys xidx (yidx + 1) buf midx = Some (xidx', yidx', buf', midx + d)
                  \<and> length buf' = length buf"
        by auto
      show ?thesis
      proof (intro exI[of _ "d + 1"] conjI allI impI)
        show "mlen' = mlen + (d + 1)" using d by simp
      next
        fix buf :: "pos_t list" and midx
        assume fits: "midx + (d + 1) \<le> length buf"
        then have st: "store buf midx ?y = Some (buf[midx := ?y])"
          by (intro store_in_range) simp
        from fits have "midx + 1 + d \<le> length (buf[midx := ?y])" by simp
        from fill[OF this] obtain buf' where
          "fill_walk xs ys xidx (yidx + 1) (buf[midx := ?y]) (midx + 1)
             = Some (xidx', yidx', buf', midx + 1 + d)"
          "length buf' = length buf" by auto
        then show "\<exists>buf'. fill_walk xs ys xidx yidx buf midx = Some (xidx', yidx', buf', midx + (d + 1))
                  \<and> length buf' = length buf"
          using inside gt st by (subst fill_walk.simps) (simp add: Let_def add.assoc)
      qed
    next
      case eq
      let ?ok = "nuc ?x = nuc ?y \<or> (tol_ambigs args \<and> (nuc ?x AND nuc ?y) \<noteq> 0)"
      let ?z = "?x\<lparr>cov := cov ?x + cov ?y, nuc := MIN_m (nuc ?x) (nuc ?y)\<rparr>"
      from eq inside res have ok: ?ok
        and rec: "overlap_walk xs ys args (xidx + 1) (yidx + 1) (mlen + 1) (overlap + 1)
                    = Inr (xidx', yidx', mlen', overlap')"
        by (auto simp: overlap_walk.simps[of xs ys args xidx yidx] Let_def split: if_splits)
      have nlt: "?cmp \<noteq> LT" and ngt: "?cmp \<noteq> GT" using eq by simp_all
      from "1.IH"(3)[OF inside refl refl refl nlt ngt ok rec]
      obtain d where d: "mlen' = mlen + 1 + d"
        and fill: "\<And>buf midx. midx + d \<le> length buf \<Longrightarrow>
           \<exists>buf'. fill_walk xs ys (xidx + 1) (yidx + 1) buf midx = Some (xidx', yidx', buf', midx + d)
                  \<and> length buf' = length buf"
        by auto
      show ?thesis
      proof (intro exI[of _ "d + 1"] conjI allI impI)
        show "mlen' = mlen + (d + 1)" using d by simp
      next
        fix buf :: "pos_t list" and midx
        assume fits: "midx + (d + 1) \<le> length buf"
        then have st: "store buf midx ?z = Some (buf[midx := ?z])"
          by (intro store_in_range) simp
        from fits have "midx + 1 + d \<le> length (buf[midx := ?z])" by simp
        from fill[OF this] obtain buf' where
          "fill_walk xs ys (xidx + 1) (yidx + 1) (buf[midx := ?z]) (midx + 1)
             = Some (xidx', yidx', buf', midx + 1 + d)"
          "length buf' = length buf" by auto
        then show "\<exists>buf'. fill_walk xs ys xidx yidx buf midx = Some (xidx', yidx', buf', midx + (d + 1))
                  \<and> length buf' = length buf"
          using inside eq st by (subst fill_walk.simps) (simp add: Let_def add.assoc)
      qed
    qed
  qed
qed


lemma skip_xs_exit:
  "\<not> (cmp = LT \<and> xidx + 1 < len xs) \<Longrightarrow> skip_xs xs ys xidx yidx cmp = (xidx, cmp)"
  by (subst skip_xs.simps) auto

lemma skip_xs_step:
  "cmp = LT \<and> xidx + 1 < len xs \<Longrightarrow>
   skip_xs xs ys xidx yidx cmp
     = skip_xs xs ys (xidx + 1) yidx (pos_cmp (data xs ! (xidx + 1)) (data ys ! yidx))"
  by (subst skip_xs.simps) auto

lemma skip_ys_exit:
  "\<not> (cmp = GT \<and> yidx + 1 < len ys) \<Longrightarrow> skip_ys xs ys xidx yidx cmp = (yidx, cmp)"
  by (subst skip_ys.simps) auto

lemma skip_ys_step:
  "cmp = GT \<and> yidx + 1 < len ys \<Longrightarrow>
   skip_ys xs ys xidx yidx cmp
     = skip_ys xs ys xidx (yidx + 1) (pos_cmp (data xs ! xidx) (data ys ! (yidx + 1)))"
  by (subst skip_ys.simps) auto

lemma skip_xs_run:
  "skip_xs xs ys xidx yidx cmp = (xidx', cmp') \<Longrightarrow>
   cmp = pos_cmp (data xs ! xidx) (data ys ! yidx) \<Longrightarrow> xidx < len xs \<Longrightarrow>
   xidx \<le> xidx' \<and> xidx' < len xs \<and> cmp' = pos_cmp (data xs ! xidx') (data ys ! yidx) \<and>
   (\<forall>i. xidx \<le> i \<and> i < xidx' \<longrightarrow> pos_cmp (data xs ! i) (data ys ! yidx) = LT)"
proof (induction xs ys xidx yidx cmp rule: skip_xs.induct)
  case (1 xs ys xidx yidx cmp)
  show ?case
  proof (cases "cmp = LT \<and> xidx + 1 < len xs")
    case False
    from "1.prems"(1) skip_xs_exit[OF False, of ys yidx] have "xidx' = xidx" "cmp' = cmp"
      by simp_all
    with "1.prems" show ?thesis by auto
  next
    case True
    have rec:
      "skip_xs xs ys (xidx + 1) yidx (pos_cmp (data xs ! (xidx + 1)) (data ys ! yidx)) = (xidx', cmp')"
      using "1.prems"(1) unfolding skip_xs_step[OF True] .
    from True have "xidx + 1 < len xs" by simp
    from "1.IH"[OF True rec refl this]
    have ih: "xidx + 1 \<le> xidx'" "xidx' < len xs"
      "cmp' = pos_cmp (data xs ! xidx') (data ys ! yidx)"
      "\<forall>i. xidx + 1 \<le> i \<and> i < xidx' \<longrightarrow> pos_cmp (data xs ! i) (data ys ! yidx) = LT"
      by auto
    have "pos_cmp (data xs ! i) (data ys ! yidx) = LT" if "xidx \<le> i" "i < xidx'" for i
    proof (cases "i = xidx")
      case True
      then show ?thesis using \<open>cmp = LT \<and> xidx + 1 < len xs\<close> "1.prems"(2) by simp
    next
      case False
      with that ih(4) show ?thesis by simp
    qed
    with ih show ?thesis by simp
  qed
qed

lemma skip_ys_run:
  "skip_ys xs ys xidx yidx cmp = (yidx', cmp') \<Longrightarrow>
   cmp = pos_cmp (data xs ! xidx) (data ys ! yidx) \<Longrightarrow> yidx < len ys \<Longrightarrow>
   yidx \<le> yidx' \<and> yidx' < len ys \<and> cmp' = pos_cmp (data xs ! xidx) (data ys ! yidx') \<and>
   (\<forall>j. yidx \<le> j \<and> j < yidx' \<longrightarrow> pos_cmp (data xs ! xidx) (data ys ! j) = GT)"
proof (induction xs ys xidx yidx cmp rule: skip_ys.induct)
  case (1 xs ys xidx yidx cmp)
  show ?case
  proof (cases "cmp = GT \<and> yidx + 1 < len ys")
    case False
    from "1.prems"(1) skip_ys_exit[OF False, of xs xidx] have "yidx' = yidx" "cmp' = cmp"
      by simp_all
    with "1.prems" show ?thesis by auto
  next
    case True
    have rec:
      "skip_ys xs ys xidx (yidx + 1) (pos_cmp (data xs ! xidx) (data ys ! (yidx + 1))) = (yidx', cmp')"
      using "1.prems"(1) unfolding skip_ys_step[OF True] .
    from True have "yidx + 1 < len ys" by simp
    from "1.IH"[OF True rec refl this]
    have ih: "yidx + 1 \<le> yidx'" "yidx' < len ys"
      "cmp' = pos_cmp (data xs ! xidx) (data ys ! yidx')"
      "\<forall>j. yidx + 1 \<le> j \<and> j < yidx' \<longrightarrow> pos_cmp (data xs ! xidx) (data ys ! j) = GT"
      by auto
    have "pos_cmp (data xs ! xidx) (data ys ! j) = GT" if "yidx \<le> j" "j < yidx'" for j
    proof (cases "j = yidx")
      case True
      then show ?thesis using \<open>cmp = GT \<and> yidx + 1 < len ys\<close> "1.prems"(2) by simp
    next
      case False
      with that ih(4) show ?thesis by simp
    qed
    with ih show ?thesis by simp
  qed
qed

text \<open>While \<open>xs\<close> leads, the construction walk copies its records one by one.\<close>

lemma fill_walk_lead_xs:
  "(\<forall>i. xidx \<le> i \<and> i < xidx + n \<longrightarrow> pos_cmp (data xs ! i) (data ys ! yidx) = LT) \<Longrightarrow>
   xidx + n \<le> len xs \<Longrightarrow> yidx < len ys \<Longrightarrow> midx + n \<le> length buf \<Longrightarrow>
   \<exists>buf'. length buf' = length buf \<and>
     fill_walk xs ys xidx yidx buf midx = fill_walk xs ys (xidx + n) yidx buf' (midx + n)"
proof (induction n arbitrary: xidx buf midx)
  case 0
  then show ?case by auto
next
  case (Suc n)
  let ?x = "data xs ! xidx"
  let ?buf1 = "buf[midx := ?x]"
  from Suc.prems have inside: "xidx < len xs" "yidx < len ys"
    and lt: "pos_cmp ?x (data ys ! yidx) = LT"
    and st: "store buf midx ?x = Some ?buf1"
    by (simp_all add: store_in_range)
  have step: "fill_walk xs ys xidx yidx buf midx = fill_walk xs ys (xidx + 1) yidx ?buf1 (midx + 1)"
    using inside lt st by (subst fill_walk.simps) (simp add: Let_def)
  from Suc.prems have
    "\<forall>i. xidx + 1 \<le> i \<and> i < xidx + 1 + n \<longrightarrow> pos_cmp (data xs ! i) (data ys ! yidx) = LT"
    "xidx + 1 + n \<le> len xs" "midx + 1 + n \<le> length ?buf1"
    by simp_all
  from Suc.IH[OF this(1,2) inside(2) this(3)] obtain buf' where
    "length buf' = length ?buf1"
    "fill_walk xs ys (xidx + 1) yidx ?buf1 (midx + 1) = fill_walk xs ys (xidx + 1 + n) yidx buf' (midx + 1 + n)"
    by blast
  with step show ?case by (intro exI[of _ buf']) simp
qed

lemma fill_walk_lead_ys:
  "(\<forall>j. yidx \<le> j \<and> j < yidx + n \<longrightarrow> pos_cmp (data xs ! xidx) (data ys ! j) = GT) \<Longrightarrow>
   yidx + n \<le> len ys \<Longrightarrow> xidx < len xs \<Longrightarrow> midx + n \<le> length buf \<Longrightarrow>
   \<exists>buf'. length buf' = length buf \<and>
     fill_walk xs ys xidx yidx buf midx = fill_walk xs ys xidx (yidx + n) buf' (midx + n)"
proof (induction n arbitrary: yidx buf midx)
  case 0
  then show ?case by auto
next
  case (Suc n)
  let ?y = "data ys ! yidx"
  let ?buf1 = "buf[midx := ?y]"
  from Suc.prems have inside: "xidx < len xs" "yidx < len ys"
    and gt: "pos_cmp (data xs ! xidx) ?y = GT"
    and st: "store buf midx ?y = Some ?buf1"
    by (simp_all add: store_in_range)
  have step: "fill_walk xs ys xidx yidx buf midx = fill_walk xs ys xidx (yidx + 1) ?buf1 (midx + 1)"
    using inside gt st by (subst fill_walk.simps) (simp add: Let_def)
  from Suc.prems have
    "\<forall>j. yidx + 1 \<le> j \<and> j < yidx + 1 + n \<longrightarrow> pos_cmp (data xs ! xidx) (data ys ! j) = GT"
    "yidx + 1 + n \<le> len ys" "midx + 1 + n \<le> length ?buf1"
    by simp_all
  from Suc.IH[OF this(1,2) inside(1) this(3)] obtain buf' where
    "length buf' = length ?buf1"
    "fill_walk xs ys xidx (yidx + 1) ?buf1 (midx + 1) = fill_walk xs ys xidx (yidx + 1 + n) buf' (midx + 1 + n)"
    by blast
  with step show ?case by (intro exI[of _ buf']) simp
qed

text \<open>The overhang that the first pass skips is what the construction walk copies first.\<close>

lemma fill_walk_overhang:
  assumes oh: "overhang xs ys args = Inr (xidx0, yidx0, mlen0)"
    and ne: "0 < len xs" "0 < len ys"
    and fits: "mlen0 \<le> length buf"
  shows "\<exists>buf'. length buf' = length buf \<and>
     fill_walk xs ys 0 0 buf 0 = fill_walk xs ys xidx0 yidx0 buf' mlen0"
proof -
  let ?cmp = "pos_cmp (data xs ! 0) (data ys ! 0)"
  consider (lt) "?cmp = LT" | (gt) "?cmp = GT" | (eq) "?cmp = EQ"
    by (cases ?cmp) auto
  then show ?thesis
  proof cases
    case lt
    obtain xidx cmp' where sk: "skip_xs xs ys 0 0 ?cmp = (xidx, cmp')"
      by (cases "skip_xs xs ys 0 0 ?cmp") auto
    with oh lt have idx: "xidx0 = xidx" "yidx0 = 0" "mlen0 = xidx"
      by (auto simp: overhang_def Let_def split: if_splits)
    from skip_xs_run[OF sk refl ne(1)] have
      "\<forall>i. 0 \<le> i \<and> i < 0 + xidx \<longrightarrow> pos_cmp (data xs ! i) (data ys ! 0) = LT" "0 + xidx \<le> len xs"
      by simp_all
    from fill_walk_lead_xs[OF this ne(2), of 0 buf] fits idx show ?thesis by simp
  next
    case gt
    obtain yidx cmp' where sk: "skip_ys xs ys 0 0 ?cmp = (yidx, cmp')"
      by (cases "skip_ys xs ys 0 0 ?cmp") auto
    with oh gt have idx: "xidx0 = 0" "yidx0 = yidx" "mlen0 = yidx"
      by (auto simp: overhang_def Let_def split: if_splits)
    from skip_ys_run[OF sk refl ne(2)] have
      "\<forall>j. 0 \<le> j \<and> j < 0 + yidx \<longrightarrow> pos_cmp (data xs ! 0) (data ys ! j) = GT" "0 + yidx \<le> len ys"
      by simp_all
    from fill_walk_lead_ys[OF this ne(1), of 0 buf] fits idx show ?thesis by simp
  next
    case eq
    with oh have "xidx0 = 0" "yidx0 = 0" "mlen0 = 0"
      by (auto simp: overhang_def Let_def)
    then show ?thesis by auto
  qed
qed

text \<open>The fill writes exactly the cells that the first pass counted.\<close>

lemma fill_matches_scan:
  assumes scan: "merge_two_scan xs ys args = Inr (mlen, overlap)"
    and sz: "length buf = mlen"
  shows "\<exists>buf'. merge_two_fill xs ys buf = Some (buf', mlen) \<and> length buf' = mlen"
proof -
  from scan have ne: "0 < len xs" "0 < len ys"
    by (auto simp: merge_two_scan_def split: if_splits)
  from scan obtain xidx0 yidx0 mlen0 where oh: "overhang xs ys args = Inr (xidx0, yidx0, mlen0)"
    by (auto simp: merge_two_scan_def split: if_splits sum.splits)
  from scan oh obtain xidx yidx mlen1 where
    walk: "overlap_walk xs ys args xidx0 yidx0 mlen0 0 = Inr (xidx, yidx, mlen1, overlap)"
    by (auto simp: merge_two_scan_def split: if_splits sum.splits)
  from scan oh walk ne have total:
    "mlen = (if xidx < len xs then mlen1 + (len xs - xidx)
             else if yidx < len ys then mlen1 + (len ys - yidx) else mlen1)"
    by (auto simp: merge_two_scan_def split: if_splits)
  from fill_follows_walk[OF walk] obtain d where d: "mlen1 = mlen0 + d"
    and fill: "\<And>buf midx. midx + d \<le> length buf \<Longrightarrow>
        \<exists>buf'. fill_walk xs ys xidx0 yidx0 buf midx = Some (xidx, yidx, buf', midx + d)
             \<and> length buf' = length buf"
    by blast
  from total d sz have "mlen0 \<le> length buf" by (simp split: if_splits)
  from fill_walk_overhang[OF oh ne this] obtain buf1 where
    b1: "length buf1 = length buf"
      "fill_walk xs ys 0 0 buf 0 = fill_walk xs ys xidx0 yidx0 buf1 mlen0" by blast
  from total d sz b1(1) have "mlen0 + d \<le> length buf1" by (simp split: if_splits)
  from fill[OF this] obtain buf2 where
    b2: "fill_walk xs ys xidx0 yidx0 buf1 mlen0 = Some (xidx, yidx, buf2, mlen1)"
      "length buf2 = length buf"
    using d b1(1) by auto
  show ?thesis
  proof (cases "xidx < len xs")
    case True
    with total sz b2(2) have "mlen1 + (len xs - xidx) \<le> length buf2" by simp
    from copy_rest_fits[OF this] True total sz b1 b2 show ?thesis
      by (auto simp: merge_two_fill_def)
  next
    case nx: False
    show ?thesis
    proof (cases "yidx < len ys")
      case True
      with nx total sz b2(2) have "mlen1 + (len ys - yidx) \<le> length buf2" by simp
      from copy_rest_fits[OF this] nx True total sz b1 b2 show ?thesis
        by (auto simp: merge_two_fill_def)
    next
      case False
      with nx total sz b1 b2 show ?thesis
        by (auto simp: merge_two_fill_def)
    qed
  qed
qed

lemma merge_two_defined: "merge_two xs ys args mem merged \<noteq> None"
proof (cases "merge_two_scan xs ys args")
  case (Inl msg)
  then show ?thesis by (simp add: merge_two_def)
next
  case (Inr p)
  obtain mlen overlap where p: "p = (mlen, overlap)" by (cases p)
  show ?thesis
  proof (cases mem)
    case None
    with Inr p show ?thesis by (simp add: merge_two_def)
  next
    case (Some f)
    from fill_matches_scan[OF Inr[unfolded p], of "map f [0..<mlen]"]
    obtain buf' where "merge_two_fill xs ys (map f [0..<mlen]) = Some (buf', mlen)" by auto
    with Inr p Some show ?thesis by (simp add: merge_two_def)
  qed
qed


section \<open>The passes of the aggregation loop\<close>

lemma merge_two_res:
  "merge_two xs ys args mem merged = Some (res, merged', diag) \<Longrightarrow> res = SUCCESS \<or> res = FAILURE"
  by (auto simp: merge_two_def ABORT_def Let_def split: sum.splits option.splits if_splits prod.splits)

lemma length_erase: "b < length cs \<Longrightarrow> length (erase cs b) = length cs - 1"
  by (simp add: erase_def)

lemma merge_pass_end:
  "\<not> a < length clusters \<Longrightarrow>
   merge_pass nread args heap clusters a b nclusters repeat out k
     = Pass_end clusters nclusters repeat out k"
  by (subst merge_pass.simps) simp

lemma merge_pass_next:
  "a < length clusters \<Longrightarrow> \<not> b < length clusters \<Longrightarrow>
   merge_pass nread args heap clusters a b nclusters repeat out k
     = merge_pass nread args heap clusters (a + 1) (a + 1 + 1)
         (if ncontrib (clusters ! a) \<ge> min_reads args then nclusters + 1 else nclusters)
         repeat out k"
  by (subst merge_pass.simps) simp

lemma merge_pass_success:
  "a < length clusters \<Longrightarrow> b < length clusters \<Longrightarrow>
   merge_two (clusters ! a) (clusters ! b) args (heap k) merged_init = Some (SUCCESS, merged, diag) \<Longrightarrow>
   clusters1 = clusters[a := aligned_destroy (clusters ! a)] \<Longrightarrow>
   clusters2 = clusters1[b := aligned_destroy (clusters1 ! b)] \<Longrightarrow>
   clusters4 = erase (clusters2[a := merged]) b \<Longrightarrow>
   merge_pass nread args heap clusters a b nclusters repeat out k
     = merge_pass nread args heap clusters4 a (a + 1) nclusters True
         (out @ [(nread, length clusters4)]) (k + 1)"
  by (subst merge_pass.simps) (simp add: Let_def)

lemma merge_pass_failure:
  "a < length clusters \<Longrightarrow> b < length clusters \<Longrightarrow>
   merge_two (clusters ! a) (clusters ! b) args (heap k) merged_init = Some (FAILURE, merged, diag) \<Longrightarrow>
   merge_pass nread args heap clusters a b nclusters repeat out k
     = merge_pass nread args heap clusters a (b + 1) nclusters repeat out (k + 1)"
  by (subst merge_pass.simps) simp

lemma upt_split: "a \<le> b \<Longrightarrow> b \<le> c \<Longrightarrow> [a ..< c] = [a ..< b] @ [b ..< c]"
  using upt_add_eq_append[of a b "c - b"] by simp

lemma rev_upt_step: "n' \<le> n \<Longrightarrow> rev [n' ..< Suc n] = n # rev [n' ..< n]"
  by simp

text \<open>Every pass runs to its end, and its progress lines count down the size.\<close>

lemma merge_pass_inv:
  "\<exists>clusters' nclusters' repeat' out' k'.
     merge_pass nread args heap clusters a b nclusters repeat out k
       = Pass_end clusters' nclusters' repeat' out' k' \<and>
     length clusters' \<le> length clusters \<and>
     out' = out @ map (\<lambda>n. (nread, n)) (rev [length clusters' ..< length clusters]) \<and>
     (repeat' \<longleftrightarrow> repeat \<or> length clusters' < length clusters) \<and>
     nclusters \<le> nclusters'"
proof (induction nread args heap clusters a b nclusters repeat out k rule: merge_pass.induct)
  case (1 nread args heap clusters a b nclusters repeat out k)
  show ?case
  proof (cases "a < length clusters")
    case False
    then show ?thesis by (simp add: merge_pass_end)
  next
    case a: True
    show ?thesis
    proof (cases "b < length clusters")
      case False
      from "1.IH"(3)[OF a False] show ?thesis
        unfolding merge_pass_next[OF a False] by (auto split: if_splits)
    next
      case b: True
      obtain res merged diag where
        m2: "merge_two (clusters ! a) (clusters ! b) args (heap k) merged_init = Some (res, merged, diag)"
        using merge_two_defined[of "clusters ! a" "clusters ! b" args "heap k" merged_init]
        by (cases "merge_two (clusters ! a) (clusters ! b) args (heap k) merged_init") auto
      from merge_two_res[OF m2] show ?thesis
      proof
        assume f: "res = FAILURE"
        from "1.IH"(2)[OF a b m2 refl refl] f show ?thesis
          unfolding merge_pass_failure[of a clusters b args heap k merged diag, OF a b m2[unfolded f]] by simp
      next
        assume s: "res = SUCCESS"
        define clusters1 where "clusters1 = clusters[a := aligned_destroy (clusters ! a)]"
        define clusters2 where "clusters2 = clusters1[b := aligned_destroy (clusters1 ! b)]"
        define clusters3 where "clusters3 = clusters2[a := merged]"
        define clusters4 where "clusters4 = erase clusters3 b"
        have len4: "length clusters4 = length clusters - 1"
          using b by (simp add: clusters4_def clusters3_def clusters2_def clusters1_def length_erase)
        from "1.IH"(1)[OF a b m2 refl refl s clusters1_def clusters2_def clusters3_def clusters4_def]
        obtain clusters' nclusters' repeat' out' k' where
          run: "merge_pass nread args heap clusters4 a (a + 1) nclusters True
                  (out @ [(nread, length clusters4)]) (k + 1)
                = Pass_end clusters' nclusters' repeat' out' k'"
          and le: "length clusters' \<le> length clusters4"
          and out': "out' = (out @ [(nread, length clusters4)])
                       @ map (\<lambda>n. (nread, n)) (rev [length clusters' ..< length clusters4])"
          and rep: "repeat'" and mono: "nclusters \<le> nclusters'"
          by auto
        from b len4 have suc: "length clusters = Suc (length clusters4)" by simp
        have "out' = out @ map (\<lambda>n. (nread, n)) (rev [length clusters' ..< length clusters])"
          unfolding out' suc rev_upt_step[OF le] by simp
        moreover from le suc have "length clusters' < length clusters" by simp
        ultimately show ?thesis
          using run rep mono
          unfolding merge_pass_success[of a clusters b args heap k merged diag, OF a b m2[unfolded s]
              clusters1_def clusters2_def clusters4_def[unfolded clusters3_def]]
          by simp
      qed
    qed
  qed
qed

lemma loop_returns:
  assumes srt: "\<forall>cs. length (srt cs) = length cs"
  shows "\<exists>nclusters clusters' out'.
     merge_clusters_loop srt nread args heap clusters out k = Some (Returned nclusters clusters' out') \<and>
     0 \<le> nclusters \<and>
     length clusters' \<le> length clusters \<and>
     out' = out @ map (\<lambda>n. (nread, n)) (rev [length clusters' ..< length clusters])"
proof (induction "length clusters" arbitrary: clusters out k rule: less_induct)
  case less
  from merge_pass_inv[of nread args heap "srt clusters" 0 "0 + 1" 0 False out k]
  obtain clusters1 nclusters1 repeat1 out1 k1 where
    pass: "merge_pass nread args heap (srt clusters) 0 (0 + 1) 0 False out k
             = Pass_end clusters1 nclusters1 repeat1 out1 k1"
    and le: "length clusters1 \<le> length clusters"
    and out1: "out1 = out @ map (\<lambda>n. (nread, n)) (rev [length clusters1 ..< length clusters])"
    and rep: "repeat1 \<longleftrightarrow> length clusters1 < length clusters"
    and nonneg: "0 \<le> nclusters1"
    using srt by auto
  show ?case
  proof (cases repeat1)
    case False
    with rep le have same: "length clusters1 = length clusters" by simp
    have "merge_clusters_loop srt nread args heap clusters out k
            = Some (Returned nclusters1 clusters1 out1)"
      using pass False by (subst merge_clusters_loop.simps) simp
    then show ?thesis using same out1 nonneg by simp
  next
    case True
    with rep have lt: "length clusters1 < length clusters" by simp
    from less[OF lt, of out1 k1] obtain nclusters clusters' out' where
      rec: "merge_clusters_loop srt nread args heap clusters1 out1 k1
              = Some (Returned nclusters clusters' out')"
      and nn: "0 \<le> nclusters"
      and le': "length clusters' \<le> length clusters1"
      and out': "out' = out1 @ map (\<lambda>n. (nread, n)) (rev [length clusters' ..< length clusters1])"
      by blast
    have split: "rev [length clusters' ..< length clusters]
            = rev [length clusters1 ..< length clusters] @ rev [length clusters' ..< length clusters1]"
      using upt_split[OF le' le] by simp
    have "merge_clusters_loop srt nread args heap clusters out k
            = merge_clusters_loop srt nread args heap clusters1 out1 k1"
      using pass True by (subst merge_clusters_loop.simps) simp
    with rec nn le le' out' out1 split show ?thesis by simp
  qed
qed


section \<open>Evaluation of the examples\<close>

lemma ex_scan: "merge_two_scan ex_a ex_b ex_args = Inr (4, 2)"
  by code_simp

lemma ex_merge:
  "merge_two ex_a ex_b ex_args (ex_heap 0) merged_init =
     Some (SUCCESS,
       \<lparr>data = [\<lparr>col = 0, ins = 0, cov = 1, nuc = 1\<rparr>,
                \<lparr>col = 1, ins = 0, cov = 2, nuc = 2\<rparr>,
                \<lparr>col = 2, ins = 0, cov = 2, nuc = 4\<rparr>,
                \<lparr>col = 3, ins = 0, cov = 1, nuc = 8\<rparr>],
         lpos = 0, rpos = 3, ncontrib = 2\<rparr>, [])"
  by code_simp

lemma ex_run:
  "merge_clusters sort_desc 2 ex_args ex_heap [ex_a, ex_b] =
     Some (Returned 1
       [\<lparr>data = [\<lparr>col = 0, ins = 0, cov = 1, nuc = 1\<rparr>,
                 \<lparr>col = 1, ins = 0, cov = 2, nuc = 2\<rparr>,
                 \<lparr>col = 2, ins = 0, cov = 2, nuc = 4\<rparr>,
                 \<lparr>col = 3, ins = 0, cov = 1, nuc = 8\<rparr>],
          lpos = 0, rpos = 3, ncontrib = 2\<rparr>]
       [(2, 1)])"
  by code_simp

section \<open>Nucleotide codes\<close>

lemma bits2nuc_nuc2bits: "c \<in> set iupac \<Longrightarrow> bits2nuc (nuc2bits c) = c"
  by (auto simp: iupac_def nuc2bits_def bits2nuc_def)

lemma nuc2bits_range: "1 \<le> nuc2bits c \<and> nuc2bits c \<le> 15"
  by (simp add: nuc2bits_def)

lemma nuc2bits_other: "c \<notin> set iupac \<Longrightarrow> nuc2bits c = 15"
  by (simp add: iupac_def nuc2bits_def)

lemma bits2nuc_other: "b \<notin> nuc2bits ` set iupac \<Longrightarrow> bits2nuc b = CHR ''N''"
  by (simp add: iupac_def nuc2bits_def bits2nuc_def)

text \<open>
  C9. The alphabet has 15 distinct symbols. \<open>nuc2bits\<close> sends each of them to a mask
  between 1 and 15, no two to the same mask, and \<open>bits2nuc\<close> sends the mask back to
  the symbol. Every other symbol is encoded as 15. \<open>bits2nuc\<close> yields \<open>N\<close> for 15 and
  for every value that is not the mask of a symbol of the alphabet.
\<close>

theorem nucleotide_code:
  "length iupac = 15 \<and> distinct iupac \<and>
   (\<forall>c \<in> set iupac. 0 < nuc2bits c \<and> nuc2bits c < 16 \<and> bits2nuc (nuc2bits c) = c) \<and>
   inj_on nuc2bits (set iupac) \<and>
   (\<forall>c. c \<notin> set iupac \<longrightarrow> nuc2bits c = 15) \<and>
   bits2nuc 15 = CHR ''N'' \<and>
   (\<forall>b. b \<notin> nuc2bits ` set iupac \<longrightarrow> bits2nuc b = CHR ''N'')"
proof (intro conjI ballI allI impI)
  show "length iupac = 15" "distinct iupac" by (simp_all add: iupac_def)
  show "inj_on nuc2bits (set iupac)"
    by (rule inj_on_inverseI[where g = bits2nuc]) (rule bits2nuc_nuc2bits)
  show "bits2nuc 15 = CHR ''N''" by (simp add: bits2nuc_def)
next
  fix c
  show "0 < nuc2bits c" "nuc2bits c < 16" using nuc2bits_range[of c] by simp_all
  show "bits2nuc (nuc2bits c) = c" if "c \<in> set iupac" using that by (rule bits2nuc_nuc2bits)
  show "nuc2bits c = 15" if "c \<notin> set iupac" using that by (rule nuc2bits_other)
next
  fix b
  show "bits2nuc b = CHR ''N''" if "b \<notin> nuc2bits ` set iupac" using that by (rule bits2nuc_other)
qed

theorem nucleotide_code_witness:
  "CHR ''M'' \<in> set iupac \<and> nuc2bits CHR ''M'' = 3 \<and> bits2nuc (nuc2bits CHR ''M'') = CHR ''M'' \<and>
   CHR ''x'' \<notin> set iupac \<and> nuc2bits CHR ''x'' = 15 \<and>
   (0::int) \<notin> nuc2bits ` set iupac \<and> bits2nuc 0 = CHR ''N''"
proof -
  have m: "CHR ''M'' \<in> set iupac" and x: "CHR ''x'' \<notin> set iupac"
    and z: "(0::int) \<notin> nuc2bits ` set iupac"
    by (simp_all add: iupac_def nuc2bits_def)
  from nucleotide_code m have "bits2nuc (nuc2bits CHR ''M'') = CHR ''M''" by blast
  moreover from nucleotide_code x have "nuc2bits CHR ''x'' = 15" by blast
  moreover from nucleotide_code z have "bits2nuc 0 = CHR ''N''" by blast
  moreover have "nuc2bits CHR ''M'' = 3" by (simp add: nuc2bits_def)
  ultimately show ?thesis using m x z by blast
qed

section \<open>The comparator\<close>

text \<open>The test of line 35 repeats the test of line 33, so \<open>LT\<close> is decided by the column alone.\<close>

lemma pos_cmp_code:
  "pos_cmp x y = (if col x > col y then GT else if col x < col y then LT
                  else if ins x > ins y then GT else EQ)"
  by (simp add: pos_cmp_def)

text \<open>
  C1. The comparator on a tie of the column: the record with the smaller
  insertion index compares \<open>EQ\<close> to the other one, which compares \<open>GT\<close> to it.
\<close>

theorem pos_cmp_tie_not_mirrored:
  "pos_cmp \<lparr>col = 0, ins = 0, cov = 1, nuc = 1\<rparr> \<lparr>col = 0, ins = 1, cov = 1, nuc = 1\<rparr> = EQ \<and>
   pos_cmp \<lparr>col = 0, ins = 1, cov = 1, nuc = 1\<rparr> \<lparr>col = 0, ins = 0, cov = 1, nuc = 1\<rparr> = GT"
  by (simp add: pos_cmp_def)

section \<open>Results of \<open>merge_two\<close>\<close>

lemma MIN_m_min: "MIN_m a b = min a b"
  by (simp add: MIN_m_def min_def)

lemma MAX_m_max: "MAX_m a b = max a b"
  by (simp add: MAX_m_def max_def)

text \<open>\<^verbatim>\<open>merge_two\<close> has no path that returns \<open>ERROR\<close>.\<close>

lemma merge_two_never_ERROR:
  "merge_two xs ys args mem merged = Some (res, merged', diag) \<Longrightarrow> res \<noteq> ERROR"
  by (drule merge_two_res) auto

text \<open>A success has counted at least \<open>min_overlap\<close> steps as overlap.\<close>

lemma merge_two_success_overlap:
  "merge_two xs ys args mem merged = Some (SUCCESS, merged', diag) \<Longrightarrow>
   \<exists>mlen overlap. merge_two_scan xs ys args = Inr (mlen, overlap) \<and> min_overlap args \<le> overlap"
  by (auto simp: merge_two_def merge_two_scan_def ABORT_def split: sum.splits if_splits)

text \<open>
  C6. When \<open>merge_two\<close> returns \<open>SUCCESS\<close>, the merged cluster has the smaller of the two
  left bounds, the larger of the two right bounds, and the sum of the two
  contribution counts.
\<close>

theorem merge_two_bounds_and_support:
  assumes "merge_two xs ys args mem merged = Some (SUCCESS, merged', diag)"
  shows "lpos merged' = min (lpos xs) (lpos ys) \<and>
         rpos merged' = max (rpos xs) (rpos ys) \<and>
         ncontrib merged' = ncontrib xs + ncontrib ys"
  using assms
  by (auto simp: merge_two_def ABORT_def Let_def MIN_m_min MAX_m_max
      split: sum.splits option.splits if_splits)

theorem merge_two_bounds_and_support_witness:
  "\<exists>merged'. merge_two ex_a ex_b ex_args (ex_heap 0) merged_init = Some (SUCCESS, merged', []) \<and>
     lpos merged' = 0 \<and> rpos merged' = 3 \<and> ncontrib merged' = 2"
proof -
  from merge_two_bounds_and_support[OF ex_merge]
  show ?thesis using ex_merge by (simp add: ex_a_def ex_b_def)
qed

text \<open>
  C10. \<open>merge_two\<close> never writes past the end of the array it allocated. When it
  returns \<open>SUCCESS\<close>, the first pass has computed some \<open>mlen\<close>, the fill of the array
  of \<open>mlen\<close> cells ends with \<open>midx = mlen\<close>, the merged cluster is that array, and
  nothing is written to \<^verbatim>\<open>cerr\<close>.
\<close>

theorem fill_index_meets_mlen:
  "merge_two xs ys args mem merged \<noteq> None \<and>
   (\<forall>merged' diag. merge_two xs ys args mem merged = Some (SUCCESS, merged', diag) \<longrightarrow>
      (\<exists>mlen overlap f.
          merge_two_scan xs ys args = Inr (mlen, overlap) \<and> mem = Some f \<and>
          merge_two_fill xs ys (map f [0..<mlen]) = Some (data merged', mlen) \<and>
          len merged' = mlen \<and> diag = []))"
proof (intro conjI allI impI)
  show "merge_two xs ys args mem merged \<noteq> None" by (rule merge_two_defined)
next
  fix merged' diag
  assume ok: "merge_two xs ys args mem merged = Some (SUCCESS, merged', diag)"
  then obtain mlen overlap where scan: "merge_two_scan xs ys args = Inr (mlen, overlap)"
    by (auto simp: merge_two_def ABORT_def split: sum.splits)
  from ok scan obtain f where mem: "mem = Some f"
    by (cases mem) (auto simp: merge_two_def ABORT_def)
  from fill_matches_scan[OF scan, of "map f [0..<mlen]"] obtain buf where
    fill: "merge_two_fill xs ys (map f [0..<mlen]) = Some (buf, mlen)" and sz: "length buf = mlen"
    by auto
  from ok scan mem fill sz have "data merged' = buf" "diag = []" "len merged' = mlen"
    by (auto simp: merge_two_def len_def)
  with scan mem fill show "\<exists>mlen overlap f.
          merge_two_scan xs ys args = Inr (mlen, overlap) \<and> mem = Some f \<and>
          merge_two_fill xs ys (map f [0..<mlen]) = Some (data merged', mlen) \<and>
          len merged' = mlen \<and> diag = []"
    by auto
qed

theorem fill_index_meets_mlen_witness:
  "\<exists>merged' f. merge_two ex_a ex_b ex_args (ex_heap 0) merged_init = Some (SUCCESS, merged', []) \<and>
     ex_heap 0 = Some f \<and>
     merge_two_scan ex_a ex_b ex_args = Inr (4, 2) \<and>
     merge_two_fill ex_a ex_b (map f [0..<4]) = Some (data merged', 4) \<and> len merged' = 4"
  using fill_index_meets_mlen[of ex_a ex_b ex_args "ex_heap 0" merged_init] ex_merge ex_scan
  by auto

section \<open>The overlap counter and the shared positions\<close>

lemma pos_cmp_EQ_col: "pos_cmp x y = EQ \<Longrightarrow> col x = col y"
  by (auto simp: pos_cmp_def split: if_splits)

lemma count_from:
  assumes "i < length zs"
  shows "length (filter P (drop i zs))
           = (if P (zs ! i) then 1 else 0) + length (filter P (drop (i + 1) zs))"
proof -
  from assms have "drop i zs = zs ! i # drop (i + 1) zs"
    by (simp add: Cons_nth_drop_Suc)
  then show ?thesis by (simp only: filter.simps list.size split: if_splits) auto
qed

lemma filter_drop_le: "length (filter P (drop i zs)) \<le> length (filter P zs)"
proof -
  have "length (filter P zs) = length (filter P (take i zs @ drop i zs))"
    by simp
  then show ?thesis by (simp only: filter_append length_append)
qed

text \<open>
  Where \<open>pos_cmp\<close> calls no record of \<open>xs\<close> equal to a record of \<open>ys\<close> with another
  insertion index, the overlap counter is bounded by the number of records of
  \<open>xs\<close> whose position \<open>ys\<close> has too, with a code that passes the test of lines
  135-136.
\<close>

lemma overlap_walk_bounded:
  assumes ties: "\<forall>x \<in> set (data xs). \<forall>y \<in> set (data ys). pos_cmp x y = EQ \<longrightarrow> ins x = ins y"
    and res: "overlap_walk xs ys args xidx yidx mlen overlap = Inr (xidx', yidx', mlen', overlap')"
  shows "overlap' \<le> overlap + int (length (filter
            (\<lambda>x. \<exists>y \<in> set (data ys). col y = col x \<and> ins y = ins x \<and>
                   (nuc x = nuc y \<or> (tol_ambigs args \<and> (nuc x AND nuc y) \<noteq> 0)))
            (drop xidx (data xs))))"
  using res ties
proof (induction xs ys args xidx yidx mlen overlap rule: overlap_walk.induct)
  case (1 xs ys args xidx yidx mlen overlap)
  let ?P = "\<lambda>x. \<exists>y \<in> set (data ys). col y = col x \<and> ins y = ins x \<and>
                   (nuc x = nuc y \<or> (tol_ambigs args \<and> (nuc x AND nuc y) \<noteq> 0))"
  let ?x = "data xs ! xidx" and ?y = "data ys ! yidx"
  let ?cmp = "pos_cmp ?x ?y"
  note res = "1.prems"(1) and ties = "1.prems"(2)
  show ?case
  proof (cases "xidx < len xs \<and> yidx < len ys")
    case False
    with res show ?thesis by (simp add: overlap_walk_exit)
  next
    case inside: True
    then have cnt: "length (filter ?P (drop xidx (data xs)))
        = (if ?P ?x then 1 else 0) + length (filter ?P (drop (xidx + 1) (data xs)))"
      by (intro count_from) (simp add: len_def)
    consider (lt) "?cmp = LT" | (gt) "?cmp = GT" | (eq) "?cmp = EQ"
      by (cases ?cmp) auto
    then show ?thesis
    proof cases
      case lt
      with inside res have tol: "tol_gaps args"
        and rec: "overlap_walk xs ys args (xidx + 1) yidx (mlen + 1) overlap
                    = Inr (xidx', yidx', mlen', overlap')"
        by (auto simp: overlap_walk.simps[of xs ys args xidx yidx] Let_def split: if_splits)
      from "1.IH"(1)[OF inside refl refl refl lt _ rec ties] tol cnt show ?thesis by simp
    next
      case gt
      with inside res have tol: "tol_gaps args"
        and rec: "overlap_walk xs ys args xidx (yidx + 1) (mlen + 1) overlap
                    = Inr (xidx', yidx', mlen', overlap')"
        by (auto simp: overlap_walk.simps[of xs ys args xidx yidx] Let_def split: if_splits)
      have nlt: "?cmp \<noteq> LT" using gt by simp
      from "1.IH"(2)[OF inside refl refl refl nlt gt _ rec ties] tol show ?thesis by simp
    next
      case eq
      with inside res have ok: "nuc ?x = nuc ?y \<or> (tol_ambigs args \<and> (nuc ?x AND nuc ?y) \<noteq> 0)"
        and rec: "overlap_walk xs ys args (xidx + 1) (yidx + 1) (mlen + 1) (overlap + 1)
                    = Inr (xidx', yidx', mlen', overlap')"
        by (auto simp: overlap_walk.simps[of xs ys args xidx yidx] Let_def split: if_splits)
      have nlt: "?cmp \<noteq> LT" and ngt: "?cmp \<noteq> GT" using eq by simp_all
      from inside have mem: "?x \<in> set (data xs)" "?y \<in> set (data ys)"
        by (simp_all add: len_def)
      with ties eq have same: "ins ?x = ins ?y" by blast
      have "?P ?x"
        using pos_cmp_EQ_col[OF eq] same ok mem(2) by (intro bexI[of _ ?y]) simp_all
      with cnt have "length (filter ?P (drop xidx (data xs)))
          = 1 + length (filter ?P (drop (xidx + 1) (data xs)))" by simp
      moreover from "1.IH"(3)[OF inside refl refl refl nlt ngt ok rec ties]
      have "overlap' \<le> overlap + 1 + int (length (filter ?P (drop (xidx + 1) (data xs))))" .
      ultimately show ?thesis by simp
    qed
  qed
qed

lemma scan_overlap_bounded:
  assumes ties: "\<forall>x \<in> set (data xs). \<forall>y \<in> set (data ys). pos_cmp x y = EQ \<longrightarrow> ins x = ins y"
    and scan: "merge_two_scan xs ys args = Inr (mlen, overlap)"
  shows "min_overlap args \<le> overlap \<and>
         overlap \<le> int (length (filter
            (\<lambda>x. \<exists>y \<in> set (data ys). col y = col x \<and> ins y = ins x \<and>
                   (nuc x = nuc y \<or> (tol_ambigs args \<and> (nuc x AND nuc y) \<noteq> 0)))
            (data xs)))"
proof -
  from scan obtain xidx0 yidx0 mlen0 xidx yidx mlen1 where
    walk: "overlap_walk xs ys args xidx0 yidx0 mlen0 0 = Inr (xidx, yidx, mlen1, overlap)"
    and enough: "min_overlap args \<le> overlap"
    by (auto simp: merge_two_scan_def split: if_splits sum.splits)
  let ?P = "\<lambda>x. \<exists>y \<in> set (data ys). col y = col x \<and> ins y = ins x \<and>
                   (nuc x = nuc y \<or> (tol_ambigs args \<and> (nuc x AND nuc y) \<noteq> 0))"
  have "int (length (filter ?P (drop xidx0 (data xs)))) \<le> int (length (filter ?P (data xs)))"
    using filter_drop_le[of ?P xidx0 "data xs"] by (simp only: of_nat_le_iff)
  with overlap_walk_bounded[OF ties walk]
  have "overlap \<le> int (length (filter ?P (data xs)))" by linarith
  with enough show ?thesis by simp
qed

text \<open>On such inputs, fewer than \<open>min_overlap\<close> shared positions make \<open>merge_two\<close> return \<open>FAILURE\<close>.\<close>

lemma no_match_without_ties:
  assumes ties: "\<forall>x \<in> set (data xs). \<forall>y \<in> set (data ys). pos_cmp x y = EQ \<longrightarrow> ins x = ins y"
    and low: "int (length (filter
            (\<lambda>x. \<exists>y \<in> set (data ys). col y = col x \<and> ins y = ins x \<and>
                   (nuc x = nuc y \<or> (tol_ambigs args \<and> (nuc x AND nuc y) \<noteq> 0)))
            (data xs))) < min_overlap args"
  shows "\<exists>merged' diag. merge_two xs ys args mem merged = Some (FAILURE, merged', diag)"
proof (cases "merge_two_scan xs ys args")
  case (Inl msg)
  then show ?thesis by (simp add: merge_two_def ABORT_def)
next
  case (Inr p)
  obtain mlen overlap where "p = (mlen, overlap)" by (cases p)
  with Inr scan_overlap_bounded[OF ties, of args mlen overlap] low show ?thesis by simp
qed

text \<open>
  C3. On \<open>ex_x\<close> and \<open>ex_y\<close>, which share one position, with \<open>min_overlap = 2\<close>: the
  first pass counts an overlap of 2 and \<open>merge_two\<close> returns \<open>SUCCESS\<close>.
\<close>

theorem merge_two_counts_insertion_tie:
  "spec_max_overlap ex_x ex_y ex_args = 1 \<and> min_overlap ex_args = 2 \<and>
   merge_two_scan ex_x ex_y ex_args = Inr (4, 2) \<and>
   map_option fst (merge_two ex_x ex_y ex_args (ex_heap 0) merged_init) = Some SUCCESS"
  by code_simp

text \<open>One step of the construction walk, for a write inside the array.\<close>

lemma fill_walk_step:
  assumes "xidx < len xs" "yidx < len ys" "midx < length buf"
  shows "fill_walk xs ys xidx yidx buf midx =
     (let x = data xs ! xidx; y = data ys ! yidx in
      case pos_cmp x y of
        LT \<Rightarrow> fill_walk xs ys (xidx + 1) yidx (buf[midx := x]) (midx + 1)
      | GT \<Rightarrow> fill_walk xs ys xidx (yidx + 1) (buf[midx := y]) (midx + 1)
      | EQ \<Rightarrow> fill_walk xs ys (xidx + 1) (yidx + 1)
                (buf[midx := x\<lparr>cov := cov x + cov y, nuc := min (nuc x) (nuc y)\<rparr>]) (midx + 1))"
  using assms
  by (subst fill_walk.simps) (simp add: Let_def store_def MIN_m_def min_def split: cmp_t.splits)

text \<open>
  C5. On \<open>ex_x\<close> and \<open>ex_y\<close> the merged cluster has no record for position \<open>(0, 2)\<close>, its
  record for \<open>(0, 0)\<close> has coverage \<open>1 + 100\<close>, and its record for the shared position
  \<open>(0, 1)\<close> has coverage \<open>10 + 1000\<close>, where the inputs have 10 and 100 there.
\<close>

theorem merge_two_shifts_coverage:
  "merge_two ex_x ex_y ex_args (ex_heap 0) merged_init =
     Some (SUCCESS,
       \<lparr>data = [\<lparr>col = 0, ins = 0, cov = 101, nuc = 1\<rparr>,
                \<lparr>col = 0, ins = 1, cov = 1010, nuc = 1\<rparr>,
                \<lparr>col = 1, ins = 0, cov = 1, nuc = 2\<rparr>,
                \<lparr>col = 2, ins = 0, cov = 1, nuc = 4\<rparr>],
         lpos = 0, rpos = 2, ncontrib = 2\<rparr>, [])"
  by code_simp

text \<open>
  C2. On \<open>ex_a\<close> and \<open>ex_b\<close>, whose merge reaches the allocation, a failing \<^verbatim>\<open>malloc\<close>
  makes \<open>merge_two\<close> return \<open>FAILURE\<close>, and \<open>merge_clusters\<close> on a heap where every
  \<^verbatim>\<open>malloc\<close> fails scans on and returns the count 0 with both clusters in place.
\<close>

theorem malloc_failure_is_FAILURE:
  "merge_two_scan ex_a ex_b ex_args = Inr (4, 2) \<and>
   merge_two ex_a ex_b ex_args None merged_init =
     Some (FAILURE, \<lparr>data = [], lpos = 0, rpos = 3, ncontrib = 2\<rparr>, []) \<and>
   merge_clusters sort_desc 2 ex_args ex_heap_full [ex_a, ex_b] = Some (Returned 0 [ex_a, ex_b] [])"
  by code_simp


section \<open>The overlap walk at equal positions\<close>

text \<open>The counter a walk starts with is carried to its result unchanged.\<close>

lemma overlap_walk_shift:
  "overlap_walk xs ys args xidx yidx mlen (overlap + c) =
     (case overlap_walk xs ys args xidx yidx mlen overlap of
        Inl msg \<Rightarrow> Inl msg
      | Inr (xidx', yidx', mlen', overlap') \<Rightarrow> Inr (xidx', yidx', mlen', overlap' + c))"
proof (induction xs ys args xidx yidx mlen overlap rule: overlap_walk.induct)
  case (1 xs ys args xidx yidx mlen overlap)
  let ?x = "data xs ! xidx" and ?y = "data ys ! yidx"
  let ?cmp = "pos_cmp ?x ?y"
  show ?case
  proof (cases "xidx < len xs \<and> yidx < len ys")
    case False
    then show ?thesis by (simp add: overlap_walk_exit)
  next
    case inside: True
    consider (lt) "?cmp = LT" "tol_gaps args" | (gt) "?cmp = GT" "tol_gaps args"
      | (gap) "?cmp \<noteq> EQ" "\<not> tol_gaps args"
      | (eq) "?cmp = EQ" "nuc ?x = nuc ?y \<or> (tol_ambigs args \<and> (nuc ?x AND nuc ?y) \<noteq> 0)"
      | (bad) "?cmp = EQ" "\<not> (nuc ?x = nuc ?y \<or> (tol_ambigs args \<and> (nuc ?x AND nuc ?y) \<noteq> 0))"
      by (cases ?cmp) auto
    then show ?thesis
    proof cases
      case lt
      have "overlap_walk xs ys args xidx yidx mlen ov
              = overlap_walk xs ys args (xidx + 1) yidx (mlen + 1) ov" for ov
        using inside lt by (subst overlap_walk.simps) (simp add: Let_def)
      with "1.IH"(1)[OF inside refl refl refl lt(1)] lt(2) show ?thesis by simp
    next
      case gt
      have "overlap_walk xs ys args xidx yidx mlen ov
              = overlap_walk xs ys args xidx (yidx + 1) (mlen + 1) ov" for ov
        using inside gt by (subst overlap_walk.simps) (simp add: Let_def)
      moreover have "?cmp \<noteq> LT" using gt by simp
      ultimately show ?thesis using "1.IH"(2)[OF inside refl refl refl _ gt(1)] gt(2) by simp
    next
      case gap
      have "overlap_walk xs ys args xidx yidx mlen ov
              = Inl (if ?cmp = LT then No_gaps_in_xs else No_gaps_in_ys)" for ov
        using inside gap by (subst overlap_walk.simps) (cases ?cmp; simp add: Let_def)
      then show ?thesis by simp
    next
      case eq
      have "overlap_walk xs ys args xidx yidx mlen ov
              = overlap_walk xs ys args (xidx + 1) (yidx + 1) (mlen + 1) (ov + 1)" for ov
        using inside eq by (subst overlap_walk.simps) (simp add: Let_def)
      note step = this
      have ne: "?cmp \<noteq> LT" "?cmp \<noteq> GT" using eq by simp_all
      have "overlap_walk xs ys args xidx yidx mlen (overlap + c)
              = overlap_walk xs ys args (xidx + 1) (yidx + 1) (mlen + 1) (overlap + 1 + c)"
        unfolding step[of "overlap + c"] by (simp only: add.assoc add.commute[of c 1])
      also note "1.IH"(3)[OF inside refl refl refl ne eq(2)]
      finally show ?thesis unfolding step[of overlap] .
    next
      case bad
      have "overlap_walk xs ys args xidx yidx mlen ov = Inl Mismatch" for ov
        using inside bad by (subst overlap_walk.simps) (auto simp: Let_def)
      then show ?thesis by simp
    qed
  qed
qed

text \<open>The walk from the state the overhang leaves and the walk from a visited state end alike.\<close>

lemma walk_visits_result:
  "walk_visits xs ys args s \<Longrightarrow>
   \<exists>xidx0 yidx0 mlen0. overhang xs ys args = Inr (xidx0, yidx0, mlen0) \<and>
     overlap_walk xs ys args xidx0 yidx0 mlen0 0
       = (case s of (xidx, yidx, mlen, overlap) \<Rightarrow> overlap_walk xs ys args xidx yidx mlen overlap)"
proof (induction rule: walk_visits.induct)
  case (start xidx0 yidx0 mlen0)
  then show ?case by simp
next
  case (lt xidx yidx mlen overlap)
  then show ?case
    by (subst (asm) (2) overlap_walk.simps) (simp add: Let_def)
next
  case (gt xidx yidx mlen overlap)
  then show ?case
    by (subst (asm) (2) overlap_walk.simps) (simp add: Let_def)
next
  case (eq xidx yidx mlen overlap)
  then show ?case
    by (subst (asm) (2) overlap_walk.simps) (simp add: Let_def compatible_def)
qed

lemma overlap_walk_EQ:
  assumes "xidx < len xs" "yidx < len ys" "pos_cmp (data xs ! xidx) (data ys ! yidx) = EQ"
  shows "overlap_walk xs ys args xidx yidx mlen overlap =
           (if nuc (data xs ! xidx) = nuc (data ys ! yidx) \<or>
               (tol_ambigs args \<and> (nuc (data xs ! xidx) AND nuc (data ys ! yidx)) \<noteq> 0)
            then overlap_walk xs ys args (xidx + 1) (yidx + 1) (mlen + 1) (overlap + 1)
            else Inl Mismatch)"
  using assms by (subst overlap_walk.simps) (simp add: Let_def)

text \<open>What the first pass returns once its walk is known to end as the walk from a given state.\<close>

lemma scan_of_walk:
  assumes visit: "walk_visits xs ys args (xidx, yidx, mlen, overlap)"
    and ne: "0 < len xs" "0 < len ys"
    and far: "\<not> (rpos xs < lpos ys + min_overlap args \<and> rpos ys < lpos xs + min_overlap args)"
  shows "merge_two_scan xs ys args =
     (case overlap_walk xs ys args xidx yidx mlen overlap of
        Inl msg \<Rightarrow> Inl msg
      | Inr (xidx', yidx', mlen', overlap') \<Rightarrow>
          if overlap' < min_overlap args then Inl Insufficient_overlap
          else if xidx' < len xs then Inr (mlen' + (len xs - xidx'), overlap')
          else if yidx' < len ys then Inr (mlen' + (len ys - yidx'), overlap')
          else Inr (mlen', overlap'))"
proof -
  from walk_visits_result[OF visit] obtain xidx0 yidx0 mlen0 where
    "overhang xs ys args = Inr (xidx0, yidx0, mlen0)"
    "overlap_walk xs ys args xidx0 yidx0 mlen0 0 = overlap_walk xs ys args xidx yidx mlen overlap"
    by auto
  with ne far show ?thesis by (auto simp: merge_two_scan_def)
qed

text \<open>The value \<open>merge_two\<close> returns, from the result of its first pass.\<close>

lemma merge_two_res_of_scan:
  "map_option fst (merge_two xs ys args mem merged) =
     Some (case merge_two_scan xs ys args of
             Inl msg \<Rightarrow> FAILURE
           | Inr r \<Rightarrow> if mem = None then FAILURE else SUCCESS)"
proof (cases "merge_two_scan xs ys args")
  case (Inl msg)
  then show ?thesis by (simp add: merge_two_def ABORT_def)
next
  case (Inr r)
  obtain mlen overlap where r: "r = (mlen, overlap)" by (cases r)
  show ?thesis
  proof (cases mem)
    case None
    with Inr r show ?thesis by (simp add: merge_two_def ABORT_def)
  next
    case (Some f)
    from fill_matches_scan[OF Inr[unfolded r], of "map f [0..<mlen]"]
    obtain buf where "merge_two_fill xs ys (map f [0..<mlen]) = Some (buf, mlen)" by auto
    with Inr r Some show ?thesis by (simp add: merge_two_def)
  qed
qed

text \<open>
  C4. Let the overlap walk of \<open>merge_two\<close> visit a state where both indices are in
  range and the two current records compare \<open>EQ\<close>.
  If the two codes are equal, or \<open>tol_ambigs\<close> is set and their bitwise conjunction
  is not zero, the step counts: the walk goes on with both indices, \<open>mlen\<close> and
  \<open>overlap\<close> advanced by one, and it returns what the rest of the walk returns with
  one more in the overlap counter. When the step exhausts one of the clusters,
  the walk returns the counter \<open>overlap + 1\<close>, which is the counter that the first
  pass compares with \<open>min_overlap\<close> and reports, and \<open>merge_two\<close> returns \<open>SUCCESS\<close>
  unless that counter is below \<open>min_overlap\<close> or \<^verbatim>\<open>malloc\<close> fails.
  Otherwise the step does not count: the walk ends at once with the message
  "mismatch", so does the first pass, and \<open>merge_two\<close> returns \<open>FAILURE\<close> with the
  out-parameter untouched.
\<close>

theorem equal_positions_count_or_abort:
  assumes visit: "walk_visits xs ys args (xidx, yidx, mlen, overlap)"
    and inside: "xidx < len xs" "yidx < len ys"
    and eq: "pos_cmp (data xs ! xidx) (data ys ! yidx) = EQ"
    and far: "\<not> (rpos xs < lpos ys + min_overlap args \<and> rpos ys < lpos xs + min_overlap args)"
  shows
    "if nuc (data xs ! xidx) = nuc (data ys ! yidx) \<or>
        (tol_ambigs args \<and> (nuc (data xs ! xidx) AND nuc (data ys ! yidx)) \<noteq> 0)
     then
       overlap_walk xs ys args xidx yidx mlen overlap
         = overlap_walk xs ys args (xidx + 1) (yidx + 1) (mlen + 1) (overlap + 1) \<and>
       (\<forall>xidx' yidx' mlen' overlap'.
          overlap_walk xs ys args (xidx + 1) (yidx + 1) (mlen + 1) overlap
            = Inr (xidx', yidx', mlen', overlap') \<longrightarrow>
          overlap_walk xs ys args xidx yidx mlen overlap
            = Inr (xidx', yidx', mlen', overlap' + 1)) \<and>
       (xidx + 1 = len xs \<or> yidx + 1 = len ys \<longrightarrow>
          overlap_walk xs ys args xidx yidx mlen overlap
            = Inr (xidx + 1, yidx + 1, mlen + 1, overlap + 1) \<and>
          merge_two_scan xs ys args =
            (if overlap + 1 < min_overlap args then Inl Insufficient_overlap
             else Inr (mlen + 1 + (len xs - (xidx + 1)) + (len ys - (yidx + 1)), overlap + 1)) \<and>
          map_option fst (merge_two xs ys args mem merged) =
            Some (if overlap + 1 < min_overlap args \<or> mem = None then FAILURE else SUCCESS))
     else
       overlap_walk xs ys args xidx yidx mlen overlap = Inl Mismatch \<and>
       merge_two_scan xs ys args = Inl Mismatch \<and>
       merge_two xs ys args mem merged = Some (FAILURE, merged, [])"
proof (cases "nuc (data xs ! xidx) = nuc (data ys ! yidx) \<or>
        (tol_ambigs args \<and> (nuc (data xs ! xidx) AND nuc (data ys ! yidx)) \<noteq> 0)")
  case False
  then have stop: "overlap_walk xs ys args xidx yidx mlen overlap = Inl Mismatch"
    unfolding overlap_walk_EQ[OF inside eq] by (simp only: if_False)
  from inside have ne: "0 < len xs" "0 < len ys" by simp_all
  from scan_of_walk[OF visit ne far] stop
  have scan: "merge_two_scan xs ys args = Inl Mismatch" by simp
  then have "merge_two xs ys args mem merged = Some (FAILURE, merged, [])"
    by (simp add: merge_two_def ABORT_def)
  with stop scan show ?thesis unfolding if_not_P[OF False] by (intro conjI)
next
  case True
  then have step: "overlap_walk xs ys args xidx yidx mlen overlap
         = overlap_walk xs ys args (xidx + 1) (yidx + 1) (mlen + 1) (overlap + 1)"
    unfolding overlap_walk_EQ[OF inside eq] by (simp only: if_True)
  have rest: "overlap_walk xs ys args xidx yidx mlen overlap
            = Inr (xidx', yidx', mlen', overlap' + 1)"
    if "overlap_walk xs ys args (xidx + 1) (yidx + 1) (mlen + 1) overlap
            = Inr (xidx', yidx', mlen', overlap')" for xidx' yidx' mlen' overlap'
    unfolding step overlap_walk_shift[of xs ys args "xidx + 1" "yidx + 1" "mlen + 1" overlap 1]
    using that by simp
  have last: "overlap_walk xs ys args xidx yidx mlen overlap
            = Inr (xidx + 1, yidx + 1, mlen + 1, overlap + 1) \<and>
          merge_two_scan xs ys args =
            (if overlap + 1 < min_overlap args then Inl Insufficient_overlap
             else Inr (mlen + 1 + (len xs - (xidx + 1)) + (len ys - (yidx + 1)), overlap + 1)) \<and>
          map_option fst (merge_two xs ys args mem merged) =
            Some (if overlap + 1 < min_overlap args \<or> mem = None then FAILURE else SUCCESS)"
    if fin: "xidx + 1 = len xs \<or> yidx + 1 = len ys"
  proof -
    from fin have "\<not> (xidx + 1 < len xs \<and> yidx + 1 < len ys)" by auto
    from overlap_walk_exit[OF this, of args "mlen + 1" "overlap + 1"] step
    have res: "overlap_walk xs ys args xidx yidx mlen overlap
            = Inr (xidx + 1, yidx + 1, mlen + 1, overlap + 1)" by simp
    from inside have ne: "0 < len xs" "0 < len ys" by simp_all
    from scan_of_walk[OF visit ne far] res fin inside
    have scan: "merge_two_scan xs ys args =
            (if overlap + 1 < min_overlap args then Inl Insufficient_overlap
             else Inr (mlen + 1 + (len xs - (xidx + 1)) + (len ys - (yidx + 1)), overlap + 1))"
      by auto
    have "map_option fst (merge_two xs ys args mem merged) =
            Some (if overlap + 1 < min_overlap args \<or> mem = None then FAILURE else SUCCESS)"
      unfolding merge_two_res_of_scan scan by simp
    with res scan show ?thesis by (intro conjI)
  qed
  from step rest last show ?thesis unfolding if_P[OF True] by blast
qed

lemma ex_ab_start: "overhang ex_a ex_b ex_args = Inr (1, 0, 1)"
  by code_simp

lemma ex_ac_start: "overhang ex_a ex_c ex_args = Inr (1, 0, 1)"
  by code_simp

theorem equal_positions_count_or_abort_witness:
  "walk_visits ex_a ex_b ex_args (2, 1, 2, 1) \<and>
   overlap_walk ex_a ex_b ex_args 2 1 2 1 = Inr (3, 2, 3, 2) \<and>
   merge_two_scan ex_a ex_b ex_args = Inr (4, 2) \<and>
   map_option fst (merge_two ex_a ex_b ex_args (ex_heap 0) merged_init) = Some SUCCESS \<and>
   walk_visits ex_a ex_c ex_args (1, 0, 1, 0) \<and>
   overlap_walk ex_a ex_c ex_args 1 0 1 0 = Inl Mismatch \<and>
   merge_two_scan ex_a ex_c ex_args = Inl Mismatch \<and>
   merge_two ex_a ex_c ex_args (ex_heap 0) merged_init = Some (FAILURE, merged_init, [])"
proof -
  have vb1: "walk_visits ex_a ex_b ex_args (1, 0, 1, 0)"
    and vc: "walk_visits ex_a ex_c ex_args (1, 0, 1, 0)"
    using ex_ab_start ex_ac_start by (auto intro: walk_visits.start)
  have b1: "1 < len ex_a" "0 < len ex_b" "pos_cmp (data ex_a ! 1) (data ex_b ! 0) = EQ"
    "compatible ex_args (data ex_a ! 1) (data ex_b ! 0)"
    by code_simp+
  from walk_visits.eq[OF vb1 b1]
  have vb: "walk_visits ex_a ex_b ex_args (2, 1, 2, 1)"
    by (simp add: numeral_2_eq_2)
  have b: "2 < len ex_a" "1 < len ex_b" "pos_cmp (data ex_a ! 2) (data ex_b ! 1) = EQ"
    "\<not> (rpos ex_a < lpos ex_b + min_overlap ex_args \<and> rpos ex_b < lpos ex_a + min_overlap ex_args)"
    by code_simp+
  have bv: "nuc (data ex_a ! 2) = nuc (data ex_b ! 1)" "2 + 1 = len ex_a"
    "min_overlap ex_args = 2" "len ex_b = 3"
    by code_simp+
  have c: "1 < len ex_a" "0 < len ex_c" "pos_cmp (data ex_a ! 1) (data ex_c ! 0) = EQ"
    "\<not> (rpos ex_a < lpos ex_c + min_overlap ex_args \<and> rpos ex_c < lpos ex_a + min_overlap ex_args)"
    by code_simp+
  have cv: "\<not> (nuc (data ex_a ! 1) = nuc (data ex_c ! 0) \<or>
        (tol_ambigs ex_args \<and> (nuc (data ex_a ! 1) AND nuc (data ex_c ! 0)) \<noteq> 0))"
    by code_simp
  note tb = equal_positions_count_or_abort[OF vb b, of "ex_heap 0" merged_init,
      unfolded if_P[OF disjI1[OF bv(1)]], THEN conjunct2, THEN conjunct2, THEN mp,
      OF disjI1[OF bv(2)]]
  note tc = equal_positions_count_or_abort[OF vc c, of "ex_heap 0" merged_init,
      unfolded if_not_P[OF cv]]
  have hp: "ex_heap 0 \<noteq> None" by (simp add: ex_heap_def)
  from tb bv(2,3,4) hp have "overlap_walk ex_a ex_b ex_args 2 1 2 1 = Inr (3, 2, 3, 2)"
    "merge_two_scan ex_a ex_b ex_args = Inr (4, 2)"
    "map_option fst (merge_two ex_a ex_b ex_args (ex_heap 0) merged_init) = Some SUCCESS"
    by simp_all
  moreover from tc
  have "overlap_walk ex_a ex_c ex_args 1 0 1 0 = Inl Mismatch"
    "merge_two_scan ex_a ex_c ex_args = Inl Mismatch"
    "merge_two ex_a ex_c ex_args (ex_heap 0) merged_init = Some (FAILURE, merged_init, [])"
    by simp_all
  ultimately show ?thesis using vb vc by simp
qed

section \<open>Size and termination of the aggregation\<close>

text \<open>\<open>sort_desc\<close> is a result that \<^verbatim>\<open>std::sort\<close> with \<open>ncontrib_cmp\<close> may produce.\<close>

lemma sort_desc_ordered: "sorted_wrt (\<lambda>x y. \<not> ncontrib_cmp y x) (sort_desc clusters)"
proof -
  have "sorted (map (\<lambda>c. - ncontrib c) (sort_desc clusters))"
    unfolding sort_desc_def by (rule sorted_sort_key)
  then show ?thesis by (simp add: sorted_map ncontrib_cmp_def not_less)
qed

lemma sort_desc_set: "set (sort_desc clusters) = set clusters"
  by (simp add: sort_desc_def)

lemma length_sort_desc: "length (sort_desc cs) = length cs"
  by (simp add: sort_desc_def)

text \<open>
  C7. Let the sort keep the number of clusters. When \<open>merge_clusters\<close> returns, the
  vector is no longer than on entry, and the difference of the two sizes is the
  number of progress lines, of which the code writes one per successful merge;
  the sizes they report fall by one from line to line, down to the final size.
\<close>

theorem merge_clusters_size:
  assumes "\<forall>cs. length (srt cs) = length cs"
    and "merge_clusters srt nread args heap clusters = Some (Returned n clusters' out)"
  shows "length clusters' \<le> length clusters \<and>
         length clusters - length clusters' = length out \<and>
         map snd out = rev [length clusters' ..< length clusters]"
proof -
  from loop_returns[OF assms(1), of nread args heap clusters "[]" 0] assms(2)
  have "length clusters' \<le> length clusters"
    and "out = map (\<lambda>n. (nread, n)) (rev [length clusters' ..< length clusters])"
    by (auto simp: merge_clusters_def)
  then show ?thesis by (simp add: comp_def)
qed

theorem merge_clusters_size_witness:
  "(\<forall>cs. length (sort_desc cs) = length cs) \<and>
   (\<exists>clusters'. merge_clusters sort_desc 2 ex_args ex_heap [ex_a, ex_b] = Some (Returned 1 clusters' [(2, 1)]) \<and>
      length clusters' = 1 \<and> length [ex_a, ex_b] - length clusters' = length [(2::int, 1::nat)])"
proof -
  have srt: "\<forall>cs. length (sort_desc cs) = length cs" by (simp add: length_sort_desc)
  from merge_clusters_size[OF srt ex_run] srt ex_run show ?thesis by simp
qed

text \<open>
  C8. Let the sort keep the number of clusters. Then \<open>merge_clusters\<close> returns on
  every vector, for every configuration and every behaviour of \<^verbatim>\<open>malloc\<close>: the loop
  exits, no write leaves its array, the returned count is not negative, and
  there are at most as many successful merges as clusters on entry.
\<close>

theorem merge_clusters_terminates:
  assumes "\<forall>cs. length (srt cs) = length cs"
  shows "\<exists>n clusters' out. merge_clusters srt nread args heap clusters = Some (Returned n clusters' out)
           \<and> 0 \<le> n \<and> length out \<le> length clusters"
proof -
  from loop_returns[OF assms, of nread args heap clusters "[]" 0]
  show ?thesis by (auto simp: merge_clusters_def)
qed

theorem merge_clusters_terminates_witness:
  "(\<forall>cs. length (sort_desc cs) = length cs) \<and>
   (\<exists>n clusters' out. merge_clusters sort_desc 2 ex_args ex_heap_full [ex_a, ex_b, ex_x, ex_y]
       = Some (Returned n clusters' out))"
proof -
  have srt: "\<forall>cs. length (sort_desc cs) = length cs" by (simp add: length_sort_desc)
  from merge_clusters_terminates[OF srt, of 2 ex_args ex_heap_full "[ex_a, ex_b, ex_x, ex_y]"] srt
  show ?thesis by blast
qed

end
